theory Spec2Isabelle
  imports Complex_Main "HOL-Library.AList" "HOL-Library.Log_Nat"
begin

section \<open>Characters and character classes\<close>

text \<open>
  The map file is opened in text mode (\<^verbatim>\<open>encoding='utf-8', errors='ignore'\<close>), so the
  parser sees a sequence of code points. A character is modelled as a \<^typ>\<open>char\<close>, that
  is a code point below 256; the classes below are those of Python's \<^verbatim>\<open>re\<close> module for
  \<^verbatim>\<open>str\<close> patterns on that range.
\<close>

definition code :: "char \<Rightarrow> nat" where
  "code c = of_char c"

text \<open>\<^verbatim>\<open>\s\<close> and \<^verbatim>\<open>str.isspace\<close>: TAB, LF, VT, FF, CR, FS, GS, RS, US, SPACE, NEL, NBSP.\<close>

definition is_space :: "char \<Rightarrow> bool" where
  "is_space c = (let n = code c in (9 \<le> n \<and> n \<le> 13) \<or> (28 \<le> n \<and> n \<le> 32) \<or> n = 133 \<or> n = 160)"

text \<open>\<^verbatim>\<open>\w\<close>: alphanumeric code points and the underscore.\<close>

definition is_word :: "char \<Rightarrow> bool" where
  "is_word c = (let n = code c in
     (48 \<le> n \<and> n \<le> 57) \<or> (65 \<le> n \<and> n \<le> 90) \<or> n = 95 \<or> (97 \<le> n \<and> n \<le> 122) \<or>
     n = 170 \<or> n = 178 \<or> n = 179 \<or> n = 181 \<or> n = 185 \<or> n = 186 \<or>
     (188 \<le> n \<and> n \<le> 190) \<or> (192 \<le> n \<and> n \<le> 214) \<or> (216 \<le> n \<and> n \<le> 246) \<or>
     (248 \<le> n \<and> n \<le> 255))"

text \<open>\<^verbatim>\<open>[\w.]\<close>\<close>

definition is_word_or_dot :: "char \<Rightarrow> bool" where
  "is_word_or_dot c = (is_word c \<or> c = CHR ''.'')"

text \<open>\<^verbatim>\<open>[0-9a-fA-F]\<close>\<close>

definition is_hex :: "char \<Rightarrow> bool" where
  "is_hex c = (let n = code c in
     (48 \<le> n \<and> n \<le> 57) \<or> (97 \<le> n \<and> n \<le> 102) \<or> (65 \<le> n \<and> n \<le> 70))"

text \<open>\<^verbatim>\<open>.\<close> (without DOTALL): anything but a line feed.\<close>

definition is_dot :: "char \<Rightarrow> bool" where
  "is_dot c = (c \<noteq> CHR 0x0A)"

definition is_char :: "char \<Rightarrow> char \<Rightarrow> bool" where
  "is_char a c = (c = a)"

section \<open>The regular expressions of the parser\<close>

text \<open>
  The three patterns of \<^verbatim>\<open>MapFileParser.parse\<close> are sequences of single characters,
  greedy repetitions of a character class, capture groups and \<^verbatim>\<open>$\<close>. \<^verbatim>\<open>rx_run\<close> is the
  backtracking matcher of \<^verbatim>\<open>re.match\<close> for such sequences: a greedy repetition first takes
  the longest run of the class and gives characters back one at a time while the rest of
  the pattern fails. The result is the list of captured groups of the first match found.
\<close>

datatype atom =
    One "char \<Rightarrow> bool"
  | Plus "char \<Rightarrow> bool"
  | Star "char \<Rightarrow> bool"
  | Open
  | Close
  | Eol

type_synonym caps = "string list \<times> string option"

fun consume :: "string \<Rightarrow> caps \<Rightarrow> caps" where
  "consume cs (gs, Some g) = (gs, Some (g @ cs))"
| "consume cs (gs, None) = (gs, None)"

fun rx_run :: "atom list \<Rightarrow> string \<Rightarrow> caps \<Rightarrow> string list option"
  and rx_back :: "nat \<Rightarrow> nat \<Rightarrow> atom list \<Rightarrow> string \<Rightarrow> caps \<Rightarrow> string list option" where
  "rx_run [] s st = Some (fst st)"
| "rx_run (One p # as) s st =
     (case s of [] \<Rightarrow> None
      | c # cs \<Rightarrow> if p c then rx_run as cs (consume [c] st) else None)"
| "rx_run (Plus p # as) s st = rx_back 1 (length (takeWhile p s)) as s st"
| "rx_run (Star p # as) s st = rx_back 0 (length (takeWhile p s)) as s st"
| "rx_run (Open # as) s st = rx_run as s (fst st, Some [])"
| "rx_run (Close # as) s st =
     rx_run as s (fst st @ [case snd st of Some g \<Rightarrow> g | None \<Rightarrow> []], None)"
| "rx_run (Eol # as) s st =
     (if s = [] \<or> s = [CHR 0x0A] then rx_run as s st else None)"
| "rx_back lo k as s st =
     (if k < lo then None
      else case rx_run as (drop k s) (consume (take k s) st) of
             Some r \<Rightarrow> Some r
           | None \<Rightarrow> if k = 0 then None else rx_back lo (k - 1) as s st)"

definition re_match :: "atom list \<Rightarrow> string \<Rightarrow> string list option" where
  "re_match pat s = rx_run pat s ([], None)"

text \<open>\<^verbatim>\<open>re.search\<close>: the first start position, from the left, at which the pattern matches.\<close>

fun re_search :: "atom list \<Rightarrow> string \<Rightarrow> string list option" where
  "re_search pat [] = re_match pat []"
| "re_search pat (c # cs) =
     (case re_match pat (c # cs) of Some r \<Rightarrow> Some r | None \<Rightarrow> re_search pat cs)"

definition literal :: "string \<Rightarrow> atom list" where
  "literal s = map (\<lambda>c. One (is_char c)) s"

text \<open>\<^verbatim>\<open>(\.\w+[\w.]*)\<close>\<close>

definition name_pat :: "atom list" where
  "name_pat = [Open, One (is_char CHR ''.''), Plus is_word, Star is_word_or_dot, Close]"

text \<open>\<^verbatim>\<open>(0x[0-9a-fA-F]+)\<close>\<close>

definition hex_pat :: "atom list" where
  "hex_pat = [Open] @ literal ''0x'' @ [Plus is_hex, Close]"

text \<open>\<^verbatim>\<open>^(\.\w+[\w.]*)\s+(0x[0-9a-fA-F]+)\s+(0x[0-9a-fA-F]+)\<close>\<close>

definition main_section_pat :: "atom list" where
  "main_section_pat = name_pat @ [Plus is_space] @ hex_pat @ [Plus is_space] @ hex_pat"

text \<open>\<^verbatim>\<open>load address (0x[0-9a-fA-F]+)\<close>\<close>

definition load_pat :: "atom list" where
  "load_pat = literal ''load address '' @ hex_pat"

text \<open>\<^verbatim>\<open>^\s+(\.\w+[\w.]*)\s+(0x[0-9a-fA-F]+)\s+(0x[0-9a-fA-F]+)\s+(.+)$\<close>\<close>

definition symbol_pat :: "atom list" where
  "symbol_pat = [Plus is_space] @ name_pat @ [Plus is_space] @ hex_pat @ [Plus is_space] @ hex_pat
                @ [Plus is_space, Open, Plus is_dot, Close, Eol]"

section \<open>Helpers from the Python library\<close>

text \<open>\<^verbatim>\<open>int(s, 16)\<close> on a string of the shape \<^verbatim>\<open>0x\<close> followed by hexadecimal digits, the only
  strings the patterns capture for it.\<close>

definition hex_val :: "char \<Rightarrow> int" where
  "hex_val c = (let n = int (code c) in
     if 48 \<le> n \<and> n \<le> 57 then n - 48
     else if 97 \<le> n \<and> n \<le> 102 then n - 87
     else n - 55)"

definition int16 :: "string \<Rightarrow> int" where
  "int16 s = foldl (\<lambda>a c. 16 * a + hex_val c) 0 (drop 2 s)"

text \<open>\<^verbatim>\<open>str.strip()\<close>\<close>

definition strip :: "string \<Rightarrow> string" where
  "strip s = rev (dropWhile is_space (rev (dropWhile is_space s)))"

text \<open>\<^verbatim>\<open>line.startswith(' ')\<close>\<close>

definition startswith_space :: "string \<Rightarrow> bool" where
  "startswith_space s = (case s of [] \<Rightarrow> False | c # _ \<Rightarrow> c = CHR '' '')"

text \<open>
  \<^verbatim>\<open>f.readlines()\<close> on a file opened in text mode with the default \<^verbatim>\<open>newline=None\<close>:
  \<^verbatim>\<open>\r\n\<close> and \<^verbatim>\<open>\r\<close> are translated to \<^verbatim>\<open>\n\<close>, and every line keeps its \<^verbatim>\<open>\n\<close>.
\<close>

fun split_lines :: "string \<Rightarrow> string \<Rightarrow> string list" where
  "split_lines acc [] = (if acc = [] then [] else [acc])"
| "split_lines acc [c] =
     (if c = CHR 0x0A \<or> c = CHR 0x0D then [acc @ [CHR 0x0A]] else [acc @ [c]])"
| "split_lines acc (c # d # cs) =
     (if c = CHR 0x0A then (acc @ [CHR 0x0A]) # split_lines [] (d # cs)
      else if c = CHR 0x0D then
        (if d = CHR 0x0A then (acc @ [CHR 0x0A]) # split_lines [] cs
         else (acc @ [CHR 0x0A]) # split_lines [] (d # cs))
      else split_lines (acc @ [c]) (d # cs))"

definition readlines :: "string \<Rightarrow> string list" where
  "readlines text = split_lines [] text"

section \<open>The parsed model\<close>

text \<open>
  A Python \<^verbatim>\<open>dict\<close> keeps its keys in insertion order and an assignment to a key that is
  present keeps the key's place: an association list with \<^const>\<open>AList.update\<close> and
  \<^const>\<open>map_of\<close>.
\<close>

record item =
  subsection_item :: string
  address :: int
  size_item :: int
  file_item :: string

record addr_info =
  vma :: int
  lma :: int
  size_info :: int

record parser =
  sections :: "(string \<times> item list) list"
  total_sizes :: "(string \<times> int) list"
  section_addresses :: "(string \<times> addr_info) list"

text \<open>\<^verbatim>\<open>MapFileParser.__init__\<close>\<close>

definition init :: parser where
  "init = \<lparr>sections = [], total_sizes = [], section_addresses = []\<rparr>"

text \<open>\<^verbatim>\<open>d[k].append(v)\<close> on a \<^verbatim>\<open>defaultdict(list)\<close>\<close>

definition dict_append :: "'k \<Rightarrow> 'v \<Rightarrow> ('k \<times> 'v list) list \<Rightarrow> ('k \<times> 'v list) list" where
  "dict_append k v d =
     AList.update k ((case map_of d k of None \<Rightarrow> [] | Some vs \<Rightarrow> vs) @ [v]) d"

text \<open>\<^verbatim>\<open>d[k] += n\<close> on a \<^verbatim>\<open>defaultdict(int)\<close>\<close>

definition dict_add :: "'k \<Rightarrow> int \<Rightarrow> ('k \<times> int) list \<Rightarrow> ('k \<times> int) list" where
  "dict_add k n d = AList.update k ((case map_of d k of None \<Rightarrow> 0 | Some m \<Rightarrow> m) + n) d"

text \<open>\<^verbatim>\<open>k in d\<close>\<close>

definition dict_in :: "'k \<Rightarrow> ('k \<times> 'v) list \<Rightarrow> bool" where
  "dict_in k d = (map_of d k \<noteq> None)"

section \<open>\<^verbatim>\<open>MapFileParser.parse\<close>\<close>

text \<open>The match of the main-section pattern, with the groups converted as the code
  converts them: section name, virtual address, size.\<close>

definition main_section_match :: "string \<Rightarrow> (string \<times> int \<times> int) option" where
  "main_section_match line =
     (case re_match main_section_pat line of
        Some [g1, g2, g3] \<Rightarrow> Some (g1, int16 g2, int16 g3)
      | _ \<Rightarrow> None)"

definition load_match :: "string \<Rightarrow> int option" where
  "load_match line =
     (case re_search load_pat line of Some [g1] \<Rightarrow> Some (int16 g1) | _ \<Rightarrow> None)"

text \<open>The match of the sub-entry pattern: subsection, address, size and the fourth
  group as matched (before \<^verbatim>\<open>strip\<close>).\<close>

definition symbol_match :: "string \<Rightarrow> (string \<times> int \<times> int \<times> string) option" where
  "symbol_match line =
     (case re_match symbol_pat line of
        Some [g1, g2, g3, g4] \<Rightarrow> Some (g1, int16 g2, int16 g3, g4)
      | _ \<Rightarrow> None)"

text \<open>The test \<^verbatim>\<open>main_section_match and not line.startswith(' ')\<close>.\<close>

definition header_match :: "string \<Rightarrow> (string \<times> int \<times> int) option" where
  "header_match line = (if startswith_space line then None else main_section_match line)"

text \<open>One iteration of the \<^verbatim>\<open>while\<close> loop: the cursor \<^verbatim>\<open>current_section\<close> and the parser
  object before the line, and after it. The test \<^verbatim>\<open>if current_section:\<close> fails for \<^verbatim>\<open>None\<close>
  and for the empty string.\<close>

definition parse_line :: "string \<Rightarrow> string option \<times> parser \<Rightarrow> string option \<times> parser" where
  "parse_line line st =
     (let current_section = fst st; p = snd st in
      case header_match line of
        Some (section_name, vma_address, sz) \<Rightarrow>
          (let lma_address = (case load_match line of Some a \<Rightarrow> a | None \<Rightarrow> vma_address) in
           (Some section_name,
            if sz > 0 then
              p\<lparr>total_sizes := AList.update section_name sz (total_sizes p),
                section_addresses := AList.update section_name
                  \<lparr>vma = vma_address, lma = lma_address, size_info = sz\<rparr> (section_addresses p)\<rparr>
            else p))
      | None \<Rightarrow>
          (case current_section of
             None \<Rightarrow> (current_section, p)
           | Some cur \<Rightarrow>
               if cur = [] then (current_section, p)
               else
                 (case symbol_match line of
                    None \<Rightarrow> (current_section, p)
                  | Some (sub, addr, sz, g4) \<Rightarrow>
                      if sz > 0 then
                        (current_section,
                         p\<lparr>sections := dict_append cur
                             \<lparr>subsection_item = sub, address = addr, size_item = sz,
                              file_item = strip g4\<rparr>
                             (sections p)\<rparr>)
                      else (current_section, p))))"

fun parse_loop :: "string list \<Rightarrow> string option \<times> parser \<Rightarrow> string option \<times> parser" where
  "parse_loop [] st = st"
| "parse_loop (line # lines) st = parse_loop lines (parse_line line st)"

definition parse_lines :: "string list \<Rightarrow> parser" where
  "parse_lines lines = snd (parse_loop lines (None, init))"

text \<open>\<^verbatim>\<open>MapFileParser(filepath).parse()\<close> on a file whose decoded content is \<open>text\<close>.\<close>

definition parse :: "string \<Rightarrow> parser" where
  "parse text = parse_lines (readlines text)"

text \<open>\<^verbatim>\<open>get_summary\<close>: a copy of the dictionary of section sizes.\<close>

definition get_summary :: "parser \<Rightarrow> (string \<times> int) list" where
  "get_summary p = total_sizes p"

text \<open>
  \<^verbatim>\<open>xs[:limit]\<close>: a negative \<open>limit\<close> counts from the end of the list.
\<close>

definition slice_to :: "int \<Rightarrow> 'a list \<Rightarrow> 'a list" where
  "slice_to limit xs =
     (if 0 \<le> limit then take (nat limit) xs else take (nat (int (length xs) + limit)) xs)"

text \<open>
  \<^verbatim>\<open>sorted(xs, key=k, reverse=True)\<close> for an integer key: Python's sort is stable and
  \<^verbatim>\<open>reverse=True\<close> keeps the original order of elements with equal keys, as the stable
  \<^const>\<open>sort_key\<close> on the negated key does.
\<close>

definition sorted_desc :: "('a \<Rightarrow> int) \<Rightarrow> 'a list \<Rightarrow> 'a list" where
  "sorted_desc k xs = sort_key (\<lambda>x. - k x) xs"

text \<open>The loop of \<^verbatim>\<open>get_top_contributors\<close> that sums the sizes of a section's items by file.\<close>

definition file_sizes :: "item list \<Rightarrow> (string \<times> int) list" where
  "file_sizes its = foldl (\<lambda>d it. dict_add (file_item it) (size_item it) d) [] its"

text \<open>The local \<^verbatim>\<open>sorted_files\<close> of \<^verbatim>\<open>get_top_contributors\<close>: the groups, largest first.\<close>

definition sorted_files :: "item list \<Rightarrow> (string \<times> int) list" where
  "sorted_files its = sorted_desc snd (file_sizes its)"

text \<open>\<^verbatim>\<open>get_top_contributors\<close>: the result's dictionaries \<^verbatim>\<open>{'file': f, 'size': s}\<close> are the
  pairs \<open>(f, s)\<close>.\<close>

definition get_top_contributors :: "parser \<Rightarrow> string \<Rightarrow> int \<Rightarrow> (string \<times> int) list" where
  "get_top_contributors p section limit =
     (case map_of (sections p) section of
        None \<Rightarrow> []
      | Some its \<Rightarrow> slice_to limit (sorted_files its))"

definition get_all_contributors :: "parser \<Rightarrow> string \<Rightarrow> item list" where
  "get_all_contributors p section =
     (case map_of (sections p) section of
        None \<Rightarrow> []
      | Some its \<Rightarrow> sorted_desc size_item its)"

section \<open>Python's floating-point arithmetic\<close>

text \<open>
  A Python \<^verbatim>\<open>float\<close> is an IEEE 754 binary64 number. A finite one is modelled by the
  rational number it denotes (the sign of a zero is not kept). \<open>to_double\<close> rounds a
  rational number to the nearest number with a 53-bit significand and an exponent of at
  least \<open>-1074\<close>, ties to even; values that round to \<open>2 ^ 1024\<close> or more overflow.
\<close>

datatype py_error = ZeroDivisionError | OverflowError

datatype pyfloat = Finite rat | PosInf | NegInf

definition bind :: "py_error + 'a \<Rightarrow> ('a \<Rightarrow> py_error + 'b) \<Rightarrow> py_error + 'b" where
  "bind m f = (case m of Inl e \<Rightarrow> Inl e | Inr x \<Rightarrow> f x)"

text \<open>The results of a loop body run on each element in turn: the first exception ends the loop.\<close>

fun all_ok :: "(py_error + 'a) list \<Rightarrow> py_error + 'a list" where
  "all_ok [] = Inr []"
| "all_ok (m # ms) = bind m (\<lambda>x. bind (all_ok ms) (\<lambda>xs. Inr (x # xs)))"

definition round_half_even :: "rat \<Rightarrow> int" where
  "round_half_even x =
     (let f = \<lfloor>x\<rfloor>; r = x - of_int f in
      if r < 1 / 2 then f else if 1 / 2 < r then f + 1 else if even f then f else f + 1)"

text \<open>\<open>\<lfloor>log\<^sub>2 x\<rfloor>\<close> for a positive rational \<open>x\<close>.\<close>

definition ilog2 :: "rat \<Rightarrow> int" where
  "ilog2 x = (let (p, q) = quotient_of x; d = bitlen p - bitlen q in
              if 2 powi d \<le> x then d else d - 1)"

definition to_double :: "rat \<Rightarrow> rat" where
  "to_double x =
     (if x = 0 then 0
      else let e = max (ilog2 \<bar>x\<bar> - 52) (- 1074) in
           of_int (round_half_even (x / 2 powi e)) * 2 powi e)"

definition overflows :: "rat \<Rightarrow> bool" where
  "overflows r = (2 ^ 1024 \<le> \<bar>r\<bar>)"

text \<open>\<^verbatim>\<open>a / b\<close> on two \<^verbatim>\<open>int\<close>s: the correctly rounded quotient.\<close>

definition true_div :: "int \<Rightarrow> int \<Rightarrow> py_error + rat" where
  "true_div a b =
     (if b = 0 then Inl ZeroDivisionError
      else let q = to_double (of_int a / of_int b) in
           if overflows q then Inl OverflowError else Inr q)"

text \<open>\<^verbatim>\<open>float(n)\<close>, the conversion that \<^verbatim>\<open>x * n\<close> applies to an \<^verbatim>\<open>int\<close> operand.\<close>

definition float_of_int :: "int \<Rightarrow> py_error + rat" where
  "float_of_int n =
     (let r = to_double (of_int n) in if overflows r then Inl OverflowError else Inr r)"

text \<open>\<^verbatim>\<open>x * n\<close> for a finite \<^verbatim>\<open>float\<close> \<open>x\<close> and an \<^verbatim>\<open>int\<close> \<open>n\<close>.\<close>

definition float_mul :: "rat \<Rightarrow> int \<Rightarrow> py_error + pyfloat" where
  "float_mul x n =
     bind (float_of_int n) (\<lambda>y.
       let r = to_double (x * y) in
       Inr (if overflows r then (if 0 < r then PosInf else NegInf) else Finite r))"

text \<open>\<^verbatim>\<open>int(x)\<close> on a \<^verbatim>\<open>float\<close>: truncation towards zero.\<close>

definition int_of_float :: "pyfloat \<Rightarrow> py_error + int" where
  "int_of_float x =
     (case x of
        Finite r \<Rightarrow> Inr (if 0 \<le> r then \<lfloor>r\<rfloor> else \<lceil>r\<rceil>)
      | PosInf \<Rightarrow> Inl OverflowError
      | NegInf \<Rightarrow> Inl OverflowError)"

text \<open>\<^verbatim>\<open>x > c\<close> for a \<^verbatim>\<open>float\<close> \<open>x\<close> and a finite \<open>c\<close>.\<close>

definition float_gt :: "pyfloat \<Rightarrow> rat \<Rightarrow> bool" where
  "float_gt x c = (case x of Finite r \<Rightarrow> c < r | PosInf \<Rightarrow> True | NegInf \<Rightarrow> False)"

section \<open>\<^verbatim>\<open>Visualizer\<close>\<close>

text \<open>
  The reports are printed. A report is modelled by the list of its printed lines that
  carry data of the model, each with the values that the line shows; rules, column
  headings and blank lines are left out. A formatted number is kept as the number that
  is formatted: \<^verbatim>\<open>format_size\<close> gives the byte count below 1024 and otherwise the
  \<^verbatim>\<open>float\<close> that \<^verbatim>\<open>:.2f\<close> prints with its unit. A report that raises is \<open>Inl\<close> of the
  exception.
\<close>

datatype size_text = B int | KB rat | MB rat

datatype colour = Red | Yellow | Green | White

datatype out =
    Message string
  | SummaryRow string size_text colour pyfloat string
  | SummaryTotal size_text
  | ContribTitle int string
  | ContribRow nat size_text pyfloat string colour
  | DetailTitle string int
  | DetailRow int size_text string string
  | Region int int size_text
  | GapRow int int size_text string
  | SectionRow string int int size_text colour
  | LmaRow int
  | VmaRow int
  | BarRow string
  | TotalUsed size_text
  | TotalGaps size_text

definition format_size :: "int \<Rightarrow> py_error + size_text" where
  "format_size sz =
     (if sz < 1024 then Inr (B sz)
      else if sz < 1024 * 1024 then bind (true_div sz 1024) (\<lambda>q. Inr (KB q))
      else bind (true_div sz (1024 * 1024)) (\<lambda>q. Inr (MB q)))"

text \<open>The local \<^verbatim>\<open>filled\<close> of \<^verbatim>\<open>draw_bar\<close>: \<^verbatim>\<open>int((value / max_value) * width)\<close>.\<close>

definition filled :: "int \<Rightarrow> int \<Rightarrow> int \<Rightarrow> py_error + int" where
  "filled val max_value width =
     bind (true_div val max_value) (\<lambda>q. bind (float_mul q width) int_of_float)"

text \<open>\<^verbatim>\<open>c * n\<close> for a one-character string: empty when \<open>n\<close> is negative.\<close>

definition times :: "char \<Rightarrow> int \<Rightarrow> string" where
  "times c n = replicate (nat n) c"

definition draw_bar :: "int \<Rightarrow> int \<Rightarrow> int \<Rightarrow> py_error + string" where
  "draw_bar val max_value width =
     (if max_value = 0 then Inr []
      else bind (filled val max_value width) (\<lambda>n.
             Inr (times CHR ''#'' n @ times CHR ''-'' (width - n))))"

text \<open>\<^verbatim>\<open>(size / total * 100) if total > 0 else 0\<close>\<close>

definition percentage :: "int \<Rightarrow> int \<Rightarrow> py_error + pyfloat" where
  "percentage sz tot =
     (if tot > 0 then bind (true_div sz tot) (\<lambda>q. float_mul q 100) else Inr (Finite 0))"

text \<open>The body of the loop of \<^verbatim>\<open>print_section_summary\<close>.\<close>

definition summary_row :: "int \<Rightarrow> int \<Rightarrow> string \<times> int \<Rightarrow> py_error + out" where
  "summary_row total_size max_size row =
     (let section = fst row; sz = snd row in
      bind (percentage sz total_size) (\<lambda>pct.
      bind (draw_bar sz max_size 40) (\<lambda>bar.
        let colr = (if float_gt pct 30 then Red else if float_gt pct 10 then Yellow else Green) in
        bind (format_size sz) (\<lambda>size_str.
          Inr (SummaryRow section size_str colr pct bar)))))"

text \<open>\<^verbatim>\<open>max(summary.values()) if summary else 1\<close>\<close>

definition max_value_of :: "(string \<times> int) list \<Rightarrow> int" where
  "max_value_of summary = (case map snd summary of [] \<Rightarrow> 1 | v # vs \<Rightarrow> fold max vs v)"

definition print_section_summary :: "parser \<Rightarrow> py_error + out list" where
  "print_section_summary p =
     (let summary = get_summary p in
      if summary = [] then Inr [Message ''No sections found in map file'']
      else
        let total_size = sum_list (map snd summary);
            sorted_sections = sorted_desc snd summary;
            max_size = max_value_of summary in
        bind (all_ok (map (summary_row total_size max_size) sorted_sections)) (\<lambda>rows.
        bind (format_size total_size) (\<lambda>total_str.
          Inr (rows @ [SummaryTotal total_str]))))"

text \<open>The body of the loop of \<^verbatim>\<open>print_top_contributors\<close>, for the rank \<open>i\<close>.\<close>

definition contrib_row :: "int \<Rightarrow> nat \<times> string \<times> int \<Rightarrow> py_error + out" where
  "contrib_row tot row =
     (let i = fst row; file_name = fst (snd row); sz = snd (snd row) in
      bind (percentage sz tot) (\<lambda>pct.
        let file_name = (if length file_name > 70
                         then ''...'' @ drop (length file_name - 67) file_name else file_name);
            colr = (if i \<le> 3 then Red else if i \<le> 10 then Yellow else White) in
        bind (format_size sz) (\<lambda>size_str.
          Inr (ContribRow i size_str pct file_name colr))))"

definition print_top_contributors :: "parser \<Rightarrow> string \<Rightarrow> int \<Rightarrow> py_error + out list" where
  "print_top_contributors p section limit =
     (let contributors = get_top_contributors p section limit in
      if contributors = [] then Inr [Message (''No data found for section: '' @ section)]
      else
        let tot = sum_list (map snd contributors) in
        bind (all_ok (map (contrib_row tot) (zip [1 ..< Suc (length contributors)] contributors)))
          (\<lambda>rows. Inr (ContribTitle limit section # rows)))"

text \<open>The body of the loop of \<^verbatim>\<open>print_detailed_breakdown\<close>.\<close>

definition detail_row :: "item \<Rightarrow> py_error + out" where
  "detail_row it =
     bind (format_size (size_item it)) (\<lambda>size_str.
       let sub = subsection_item it;
           sub = (if length sub > 28 then take 25 sub @ ''...'' else sub);
           file_name = file_item it;
           file_name = (if length file_name > 50
                        then ''...'' @ drop (length file_name - 47) file_name else file_name) in
       Inr (DetailRow (address it) size_str sub file_name))"

definition print_detailed_breakdown :: "parser \<Rightarrow> string \<Rightarrow> int \<Rightarrow> py_error + out list" where
  "print_detailed_breakdown p section limit =
     (let its = get_all_contributors p section in
      if its = [] then Inr [Message (''No data found for section: '' @ section)]
      else
        bind (all_ok (map detail_row (slice_to limit its)))
          (\<lambda>rows. Inr (DetailTitle section limit # rows)))"

text \<open>The dictionaries that \<^verbatim>\<open>print_memory_map\<close> collects in \<^verbatim>\<open>all_sections\<close>.\<close>

record mm_section =
  name :: string
  start :: int
  end_addr :: int
  size_sec :: int
  vma_sec :: int
  lma_sec :: int

definition all_sections :: "parser \<Rightarrow> bool \<Rightarrow> mm_section list" where
  "all_sections p use_vma =
     map (\<lambda>(nm, info).
            let addr = (if use_vma then vma info else lma info) in
            \<lparr>name = nm, start = addr, end_addr = addr + size_info info,
             size_sec = size_info info, vma_sec = vma info, lma_sec = lma info\<rparr>)
         (section_addresses p)"

text \<open>
  The body of the loop of \<^verbatim>\<open>print_memory_map\<close>: from \<^verbatim>\<open>prev_end\<close>, \<^verbatim>\<open>total_used\<close> and
  \<^verbatim>\<open>total_gaps\<close> before the section to the lines printed for it and the three values
  after it.
\<close>

definition mm_body :: "int \<Rightarrow> bool \<Rightarrow> int \<times> int \<times> int \<Rightarrow> mm_section
    \<Rightarrow> py_error + (out list \<times> int \<times> int \<times> int)" where
  "mm_body region_total use_vma st s =
     (let prev_end = fst st; total_used = fst (snd st); total_gaps = snd (snd st) in
      bind (if start s > prev_end then
              (let gap_size = start s - prev_end in
               bind (format_size gap_size) (\<lambda>gap_str.
               bind (true_div (40 * gap_size) region_total) (\<lambda>q.
               bind (int_of_float (Finite q)) (\<lambda>n.
                 Inr ([GapRow prev_end (start s) gap_str (times CHR ''.'' (min 40 (max 1 n)))],
                      total_gaps + gap_size)))))
            else Inr ([], total_gaps)) (\<lambda>(gap_lines, total_gaps).
      let total_used = total_used + size_sec s in
      bind (format_size (size_sec s)) (\<lambda>size_str.
      bind (true_div (60 * size_sec s) region_total) (\<lambda>q.
      bind (int_of_float (Finite q)) (\<lambda>n.
        let bar = times CHR ''#'' (min 60 (max 1 n));
            colr = (if size_sec s > 100 * 1024 then Red
                    else if size_sec s > 10 * 1024 then Yellow else Green);
            alt = (if use_vma \<and> vma_sec s \<noteq> lma_sec s then [LmaRow (lma_sec s)]
                   else if \<not> use_vma \<and> vma_sec s \<noteq> lma_sec s then [VmaRow (vma_sec s)]
                   else []) in
        Inr (gap_lines @ [SectionRow (name s) (start s) (end_addr s) size_str colr] @ alt
               @ [BarRow bar],
             end_addr s, total_used, total_gaps))))))"

fun mm_loop :: "int \<Rightarrow> bool \<Rightarrow> mm_section list \<Rightarrow> int \<times> int \<times> int
    \<Rightarrow> py_error + (out list \<times> int \<times> int \<times> int)" where
  "mm_loop region_total use_vma [] st = Inr ([], st)"
| "mm_loop region_total use_vma (s # ss) st =
     (case mm_body region_total use_vma st s of
        Inl e \<Rightarrow> Inl e
      | Inr (ls, st') \<Rightarrow>
          (case mm_loop region_total use_vma ss st' of
             Inl e \<Rightarrow> Inl e
           | Inr (ls', st'') \<Rightarrow> Inr (ls @ ls', st'')))"

definition print_memory_map :: "parser \<Rightarrow> bool \<Rightarrow> py_error + out list" where
  "print_memory_map p use_vma =
     (if section_addresses p = [] then Inr [Message ''No memory layout information found'']
      else
        let secs = sort_key start (all_sections p use_vma);
            region_start = start (hd secs);
            region_end = end_addr (last secs);
            region_total = region_end - region_start in
        bind (format_size region_total) (\<lambda>span.
        bind (mm_loop region_total use_vma secs (region_start, 0, 0)) (\<lambda>(ls, st).
        bind (format_size (fst (snd st))) (\<lambda>used_str.
        bind (format_size (snd (snd st))) (\<lambda>gaps_str.
          Inr ([Region region_start region_end span] @ ls
               @ [TotalUsed used_str, TotalGaps gaps_str]))))))"

section \<open>Predicates used in the statements\<close>

text \<open>
  The filled width in the words of the specification,
  \<^verbatim>\<open>round(size / max_size * bar_width)\<close>, on exact numbers.
\<close>

definition spec_filled :: "int \<Rightarrow> int \<Rightarrow> int \<Rightarrow> int" where
  "spec_filled sz max_size bar_width =
     round_half_even (of_int sz / of_int max_size * of_int bar_width)"

text \<open>The exponent of the last place of the binary64 number nearest to a positive \<open>x\<close>.\<close>

definition expo :: "rat \<Rightarrow> int" where
  "expo x = max (ilog2 x - 52) (- 1074)"


text \<open>
  The gap and section records among the printed lines of the memory map, in the order
  they are printed: a gap by its two addresses, a section by its name and its two
  addresses.
\<close>

fun mark :: "out \<Rightarrow> ((int \<times> int) + (string \<times> int \<times> int)) option" where
  "mark (GapRow a b t bar) = Some (Inl (a, b))"
| "mark (SectionRow nm a b t c) = Some (Inr (nm, a, b))"
| "mark _ = None"

definition marks :: "out list \<Rightarrow> ((int \<times> int) + (string \<times> int \<times> int)) list" where
  "marks ls = List.map_filter mark ls"

text \<open>
  The records expected for the sections \<open>secs\<close> walked from \<open>prev_end = q\<close>: each section
  is paired with the end of the section before it (the first one with \<open>q\<close>), and a gap
  stands before a section exactly when the section starts after that address.
\<close>

definition walk_marks :: "int \<Rightarrow> mm_section list \<Rightarrow> ((int \<times> int) + (string \<times> int \<times> int)) list" where
  "walk_marks q secs =
     concat (map (\<lambda>(pe, s). (if start s > pe then [Inl (pe, start s)] else [])
                              @ [Inr (name s, start s, end_addr s)])
                 (zip (q # map end_addr secs) secs))"

definition walk_gaps :: "int \<Rightarrow> mm_section list \<Rightarrow> int" where
  "walk_gaps q secs =
     sum_list (map (\<lambda>(pe, s). if start s > pe then start s - pe else 0)
                   (zip (q # map end_addr secs) secs))"

definition sizes_positive :: "parser \<Rightarrow> bool" where
  "sizes_positive p \<longleftrightarrow>
     (\<forall>n s. (n, s) \<in> set (total_sizes p) \<longrightarrow> 0 < s) \<and>
     (\<forall>n i. (n, i) \<in> set (section_addresses p) \<longrightarrow> 0 < size_info i) \<and>
     (\<forall>n its it. (n, its) \<in> set (sections p) \<longrightarrow> it \<in> set its \<longrightarrow> 0 < size_item it)"


section \<open>Properties\<close>



lemma set_update_cases:
  "(a, b) \<in> set (AList.update k v al) \<Longrightarrow> (a, b) = (k, v) \<or> (a, b) \<in> set al"
  by (induction al) (auto split: if_splits)

lemma map_of_update_eq: "map_of (AList.update k v al) k = Some v"
  by (simp add: update_conv')

lemma map_of_update_neq: "k' \<noteq> k \<Longrightarrow> map_of (AList.update k v al) k' = map_of al k'"
  by (simp add: update_conv')

lemma update_not_Nil: "AList.update k v al \<noteq> []"
  by (cases al) auto

lemma map_of_dict_append_eq:
  "map_of (dict_append k v d) k = Some ((case map_of d k of None \<Rightarrow> [] | Some vs \<Rightarrow> vs) @ [v])"
  by (simp add: dict_append_def map_of_update_eq)

lemma map_of_dict_append_neq: "k' \<noteq> k \<Longrightarrow> map_of (dict_append k v d) k' = map_of d k'"
  by (simp add: dict_append_def map_of_update_neq)

lemma set_dict_append_cases:
  assumes "(a, b) \<in> set (dict_append k v d)"
  shows "(a, b) \<in> set d \<or> (a = k \<and> (\<exists>vs. b = vs @ [v] \<and> (vs = [] \<or> (k, vs) \<in> set d)))"
proof -
  from assms have "(a, b) = (k, (case map_of d k of None \<Rightarrow> [] | Some vs \<Rightarrow> vs) @ [v]) \<or> (a, b) \<in> set d"
    unfolding dict_append_def by (rule set_update_cases)
  then show ?thesis
    by (auto split: option.splits dest: map_of_SomeD)
qed

lemma parse_line_header:
  "header_match line = Some (n, v, sz) \<Longrightarrow>
   parse_line line (cur, p) =
     (Some n,
      if sz > 0 then
        p\<lparr>total_sizes := AList.update n sz (total_sizes p),
          section_addresses := AList.update n
            \<lparr>vma = v, lma = (case load_match line of Some a \<Rightarrow> a | None \<Rightarrow> v), size_info = sz\<rparr>
            (section_addresses p)\<rparr>
      else p)"
  by (simp add: parse_line_def Let_def)

lemma parse_line_no_cursor:
  "header_match line = None \<Longrightarrow> parse_line line (None, p) = (None, p)"
  by (simp add: parse_line_def)

lemma parse_line_symbol:
  "header_match line = None \<Longrightarrow>
   parse_line line (Some c, p) =
     (Some c,
      if c = [] then p
      else
        case symbol_match line of
          None \<Rightarrow> p
        | Some (sub, a, sz, g4) \<Rightarrow>
            if sz > 0 then
              p\<lparr>sections := dict_append c
                  \<lparr>subsection_item = sub, address = a, size_item = sz, file_item = strip g4\<rparr>
                  (sections p)\<rparr>
            else p)"
  by (simp add: parse_line_def split: option.splits prod.splits)

lemma parse_line_positive:
  assumes "sizes_positive (snd st)"
  shows "sizes_positive (snd (parse_line line st))"
proof (cases "header_match line")
  case None
  show ?thesis
  proof (cases st)
    case (Pair cur p)
    show ?thesis
    proof (cases cur)
      case None
      with Pair \<open>header_match line = None\<close> assms show ?thesis
        by (simp add: parse_line_no_cursor)
    next
      case (Some c)
      with Pair \<open>header_match line = None\<close> assms show ?thesis
        by (auto simp: parse_line_symbol sizes_positive_def split: option.splits prod.splits
            dest!: set_dict_append_cases)
    qed
  qed
next
  case (Some h)
  obtain n v sz where h: "h = (n, v, sz)" by (cases h)
  obtain cur p where st: "st = (cur, p)" by (cases st)
  from assms show ?thesis
    unfolding st using Some h
    by (auto simp: parse_line_header sizes_positive_def dest!: set_update_cases)
qed

lemma parse_loop_positive:
  "sizes_positive (snd st) \<Longrightarrow> sizes_positive (snd (parse_loop lines st))"
proof (induction lines arbitrary: st)
  case Nil
  then show ?case by simp
next
  case (Cons l ls)
  have "sizes_positive (snd (parse_line l st))"
    using Cons.prems by (rule parse_line_positive)
  then show ?case
    using Cons.IH by simp
qed

lemma parse_loop_append:
  "parse_loop (xs @ ys) st = parse_loop ys (parse_loop xs st)"
  by (induction xs arbitrary: st) auto


lemma set_sorted_desc: "set (sorted_desc k xs) = set xs"
  by (simp add: sorted_desc_def)

lemma length_sorted_desc: "length (sorted_desc k xs) = length xs"
  by (simp add: sorted_desc_def)

lemma bind_Inr_iff: "bind m f = Inr y \<longleftrightarrow> (\<exists>x. m = Inr x \<and> f x = Inr y)"
  by (cases m) (auto simp: bind_def)

lemma bind_Inl_iff: "bind m f = Inl e \<longleftrightarrow> m = Inl e \<or> (\<exists>x. m = Inr x \<and> f x = Inl e)"
  by (cases m) (auto simp: bind_def)

lemma all_ok_Inr_iff: "all_ok ms = Inr ys \<longleftrightarrow> ms = map Inr ys"
proof (induction ms arbitrary: ys)
  case Nil
  then show ?case by auto
next
  case (Cons m ms)
  show ?case
  proof (cases m)
    case (Inl e)
    then show ?thesis by (auto simp: bind_def)
  next
    case (Inr x)
    then show ?thesis
      using Cons.IH by (cases ys) (auto simp: bind_Inr_iff)
  qed
qed

lemma parse_positive: "sizes_positive (parse text)"
proof -
  have "sizes_positive (snd (None, init))"
    by (simp add: sizes_positive_def init_def)
  then show ?thesis
    unfolding parse_def parse_lines_def by (rule parse_loop_positive)
qed

lemma rx_back_SomeD:
  "rx_back lo k as s st = Some r \<Longrightarrow>
   \<exists>j. lo \<le> j \<and> j \<le> k \<and> rx_run as (drop j s) (consume (take j s) st) = Some r"
proof (induction k)
  case 0
  then show ?case
    by (auto split: if_splits option.splits)
next
  case (Suc k)
  show ?case
  proof (cases "rx_run as (drop (Suc k) s) (consume (take (Suc k) s) st)")
    case (Some r')
    with Suc.prems show ?thesis
      by (auto split: if_splits intro!: exI [of _ "Suc k"])
  next
    case None
    with Suc.prems have "rx_back lo k as s st = Some r"
      by (auto split: if_splits)
    from Suc.IH [OF this] show ?thesis by auto
  qed
qed

lemma rx_run_append_SomeD:
  "rx_run (as @ bs) s st = Some r \<Longrightarrow> \<exists>s' st'. rx_run bs s' st' = Some r"
proof (induction as arbitrary: s st)
  case Nil
  then have "rx_run bs s st = Some r" by simp
  then show ?case by blast
next
  case (Cons a as)
  show ?case
  proof (cases a)
    case (One p)
    with Cons.prems obtain c cs where "rx_run (as @ bs) cs (consume [c] st) = Some r"
      by (auto split: list.splits if_splits)
    then show ?thesis by (rule Cons.IH)
  next
    case (Plus p)
    with Cons.prems have "rx_back 1 (length (takeWhile p s)) (as @ bs) s st = Some r"
      by simp
    from rx_back_SomeD [OF this] obtain j where
      "rx_run (as @ bs) (drop j s) (consume (take j s) st) = Some r" by blast
    then show ?thesis by (rule Cons.IH)
  next
    case (Star p)
    with Cons.prems have "rx_back 0 (length (takeWhile p s)) (as @ bs) s st = Some r"
      by simp
    from rx_back_SomeD [OF this] obtain j where
      "rx_run (as @ bs) (drop j s) (consume (take j s) st) = Some r" by blast
    then show ?thesis by (rule Cons.IH)
  next
    case Open
    with Cons.prems have "rx_run (as @ bs) s (fst st, Some []) = Some r" by simp
    then show ?thesis by (rule Cons.IH)
  next
    case Close
    with Cons.prems have
      "rx_run (as @ bs) s (fst st @ [case snd st of Some g \<Rightarrow> g | None \<Rightarrow> []], None) = Some r"
      by simp
    then show ?thesis by (rule Cons.IH)
  next
    case Eol
    with Cons.prems have "rx_run (as @ bs) s st = Some r"
      by (auto split: if_splits)
    then show ?thesis by (rule Cons.IH)
  qed
qed

lemma last_group_SomeD:
  assumes "rx_run [Open, Plus is_dot, Close, Eol] s st = Some r"
  shows "\<exists>j. 1 \<le> j \<and> j \<le> length (takeWhile is_dot s) \<and> r = fst st @ [take j s]"
proof -
  from assms have "rx_back 1 (length (takeWhile is_dot s)) [Close, Eol] s (fst st, Some []) = Some r"
    by simp
  from rx_back_SomeD [OF this] obtain j where j: "1 \<le> j" "j \<le> length (takeWhile is_dot s)"
    and run: "rx_run [Close, Eol] (drop j s) (consume (take j s) (fst st, Some [])) = Some r"
    by blast
  from run have "r = fst st @ [take j s]"
    by (auto split: if_splits)
  with j show ?thesis by blast
qed

lemma symbol_pat_split:
  "symbol_pat = ([Plus is_space] @ name_pat @ [Plus is_space] @ hex_pat @ [Plus is_space] @ hex_pat
                  @ [Plus is_space]) @ [Open, Plus is_dot, Close, Eol]"
  by (simp add: symbol_pat_def)

lemma symbol_match_group4:
  assumes "symbol_match line = Some (sub, a, sz, g4)"
  shows "g4 \<noteq> []" and "CHR 0x0A \<notin> set g4"
proof -
  from assms obtain g1 g2 g3 where m: "re_match symbol_pat line = Some [g1, g2, g3, g4]"
    by (auto simp: symbol_match_def split: option.splits list.splits)
  then have "rx_run (([Plus is_space] @ name_pat @ [Plus is_space] @ hex_pat @ [Plus is_space]
       @ hex_pat @ [Plus is_space]) @ [Open, Plus is_dot, Close, Eol]) line ([], None)
       = Some [g1, g2, g3, g4]"
    by (simp only: re_match_def symbol_pat_split)
  from rx_run_append_SomeD [OF this] obtain s' st' where
    "rx_run [Open, Plus is_dot, Close, Eol] s' st' = Some [g1, g2, g3, g4]" by blast
  from last_group_SomeD [OF this] obtain j where j: "1 \<le> j" "j \<le> length (takeWhile is_dot s')"
    and r: "[g1, g2, g3, g4] = fst st' @ [take j s']" by blast
  from r have "last [g1, g2, g3, g4] = last (fst st' @ [take j s'])" by simp
  then have g4: "g4 = take j s'" by simp
  have pre: "take j s' = take j (takeWhile is_dot s')"
  proof -
    have "take j s' = take j (takeWhile is_dot s' @ dropWhile is_dot s')" by simp
    also have "\<dots> = take j (takeWhile is_dot s')" using j(2) by (simp only: take_append) simp
    finally show ?thesis .
  qed
  show "g4 \<noteq> []"
    using j unfolding g4 pre by auto
  have "set g4 \<subseteq> set (takeWhile is_dot s')"
    unfolding g4 pre by (rule set_take_subset)
  then have "\<forall>c\<in>set g4. is_dot c"
    by (auto dest: set_takeWhileD)
  then show "CHR 0x0A \<notin> set g4"
    by (auto simp: is_dot_def)
qed

lemma strip_empty_iff: "strip s = [] \<longleftrightarrow> (\<forall>c\<in>set s. is_space c)"
proof
  assume "strip s = []"
  then have a: "\<forall>c\<in>set (dropWhile is_space s). is_space c"
    by (simp add: strip_def dropWhile_eq_Nil_conv)
  have "dropWhile is_space s = []"
  proof (rule ccontr)
    assume ne: "dropWhile is_space s \<noteq> []"
    then have "\<not> is_space (hd (dropWhile is_space s))" by (rule hd_dropWhile)
    moreover have "hd (dropWhile is_space s) \<in> set (dropWhile is_space s)" using ne by simp
    ultimately show False using a by blast
  qed
  then show "\<forall>c\<in>set s. is_space c" by (simp add: dropWhile_eq_Nil_conv)
next
  assume "\<forall>c\<in>set s. is_space c"
  then have "dropWhile is_space s = []" by (simp only: dropWhile_eq_Nil_conv)
  then show "strip s = []" unfolding strip_def by (simp del: dropWhile_eq_Nil_conv)
qed

lemma fst_consume: "fst (consume cs st) = fst st"
  by (cases st; cases "snd st") auto

lemma rx_run_prefix: "rx_run as s st = Some r \<Longrightarrow> \<exists>t. r = fst st @ t"
proof (induction as arbitrary: s st)
  case Nil
  then show ?case by auto
next
  case (Cons a as)
  show ?case
  proof (cases a)
    case (One p)
    with Cons.prems obtain c cs where "rx_run as cs (consume [c] st) = Some r"
      by (auto split: list.splits if_splits)
    from Cons.IH [OF this] show ?thesis by (simp add: fst_consume)
  next
    case (Plus p)
    with Cons.prems have "rx_back 1 (length (takeWhile p s)) as s st = Some r"
      by simp
    from rx_back_SomeD [OF this] obtain j where
      "rx_run as (drop j s) (consume (take j s) st) = Some r" by blast
    from Cons.IH [OF this] show ?thesis by (simp add: fst_consume)
  next
    case (Star p)
    with Cons.prems have "rx_back 0 (length (takeWhile p s)) as s st = Some r"
      by simp
    from rx_back_SomeD [OF this] obtain j where
      "rx_run as (drop j s) (consume (take j s) st) = Some r" by blast
    from Cons.IH [OF this] show ?thesis by (simp add: fst_consume)
  next
    case Open
    with Cons.prems have "rx_run as s (fst st, Some []) = Some r" by simp
    from Cons.IH [OF this] show ?thesis by simp
  next
    case Close
    with Cons.prems have
      "rx_run as s (fst st @ [case snd st of Some g \<Rightarrow> g | None \<Rightarrow> []], None) = Some r"
      by simp
    from Cons.IH [OF this] show ?thesis by auto
  next
    case Eol
    with Cons.prems have "rx_run as s st = Some r"
      by (auto split: if_splits)
    then show ?thesis by (rule Cons.IH)
  qed
qed

lemma main_section_pat_split:
  "main_section_pat = Open # One (is_char CHR ''.'') # Plus is_word # Star is_word_or_dot # Close
     # ([Plus is_space] @ hex_pat @ [Plus is_space] @ hex_pat)"
  by (simp add: main_section_pat_def name_pat_def)

lemma main_section_match_name:
  assumes "main_section_match line = Some (n, v, sz)"
  shows "n \<noteq> []"
proof -
  define rest where "rest = [Plus is_space] @ hex_pat @ [Plus is_space] @ hex_pat"
  from assms obtain g2 g3 where "re_match main_section_pat line = Some [n, g2, g3]"
    by (auto simp: main_section_match_def split: option.splits list.splits)
  then have "rx_run (Open # One (is_char CHR ''.'') # Plus is_word # Star is_word_or_dot # Close
      # rest) line ([], None) = Some [n, g2, g3]"
    by (simp only: re_match_def main_section_pat_split rest_def)
  then obtain c cs where
    "rx_back 1 (length (takeWhile is_word cs)) (Star is_word_or_dot # Close # rest) cs
       ([], Some [c]) = Some [n, g2, g3]"
    by (auto split: list.splits if_splits)
  from rx_back_SomeD [OF this] obtain j where
    "rx_run (Star is_word_or_dot # Close # rest) (drop j cs) ([], Some (c # take j cs))
       = Some [n, g2, g3]"
    by auto
  then have "rx_back 0 (length (takeWhile is_word_or_dot (drop j cs))) (Close # rest) (drop j cs)
       ([], Some (c # take j cs)) = Some [n, g2, g3]"
    by simp
  from rx_back_SomeD [OF this] obtain k where
    "rx_run (Close # rest) (drop k (drop j cs)) ([], Some ((c # take j cs) @ take k (drop j cs)))
       = Some [n, g2, g3]"
    by auto
  then have "rx_run rest (drop k (drop j cs)) ([(c # take j cs) @ take k (drop j cs)], None)
       = Some [n, g2, g3]"
    by simp
  from rx_run_prefix [OF this] obtain t where
    "[n, g2, g3] = [(c # take j cs) @ take k (drop j cs)] @ t"
    by auto
  then show ?thesis by auto
qed

lemma header_match_name: "header_match line = Some (n, v, sz) \<Longrightarrow> n \<noteq> []"
  by (auto simp: header_match_def split: if_splits dest: main_section_match_name)

text \<open>
  Claim C9. Every size stored in the parsed model is strictly positive: every value of the
  section-size summary, the size of every address-info record and the size of every
  contribution entry is greater than 0, for every input text.
\<close>

theorem C9_sizes_strictly_positive:
  "(\<forall>n s. (n, s) \<in> set (get_summary (parse text)) \<longrightarrow> 0 < s) \<and>
   (\<forall>n i. (n, i) \<in> set (section_addresses (parse text)) \<longrightarrow> 0 < size_info i) \<and>
   (\<forall>n its it. (n, its) \<in> set (sections (parse text)) \<longrightarrow> it \<in> set its \<longrightarrow> 0 < size_item it)"
proof -
  have "sizes_positive (snd (None, init))"
    by (simp add: sizes_positive_def init_def)
  then have "sizes_positive (parse text)"
    unfolding parse_def parse_lines_def by (rule parse_loop_positive)
  then show ?thesis
    by (simp add: sizes_positive_def get_summary_def)
qed


text \<open>
  The statement of C9 at a two-line input, where none of the three mappings is empty.
\<close>

theorem C9_sizes_strictly_positive_witness:
  "get_summary (parse ''.text 0x00280180 0x000000a0\<newline>  .text.foo 0x00280180 0x00000050 a.o\<newline>'')
     = [(''.text'', 160)] \<and>
   section_addresses (parse ''.text 0x00280180 0x000000a0\<newline>  .text.foo 0x00280180 0x00000050 a.o\<newline>'')
     = [(''.text'', \<lparr>vma = 2621824, lma = 2621824, size_info = 160\<rparr>)] \<and>
   sections (parse ''.text 0x00280180 0x000000a0\<newline>  .text.foo 0x00280180 0x00000050 a.o\<newline>'')
     = [(''.text'', [\<lparr>subsection_item = ''.text.foo'', address = 2621824, size_item = 80,
                       file_item = ''a.o''\<rparr>])] \<and>
   0 < snd (hd (get_summary
     (parse ''.text 0x00280180 0x000000a0\<newline>  .text.foo 0x00280180 0x00000050 a.o\<newline>'')))"
proof -
  have e: "parse ''.text 0x00280180 0x000000a0\<newline>  .text.foo 0x00280180 0x00000050 a.o\<newline>''
    = \<lparr>sections = [(''.text'', [\<lparr>subsection_item = ''.text.foo'', address = 2621824,
                                   size_item = 80, file_item = ''a.o''\<rparr>])],
       total_sizes = [(''.text'', 160)],
       section_addresses = [(''.text'', \<lparr>vma = 2621824, lma = 2621824, size_info = 160\<rparr>)]\<rparr>"
    by code_simp
  show ?thesis
    using C9_sizes_strictly_positive
      [of "''.text 0x00280180 0x000000a0\<newline>  .text.foo 0x00280180 0x00000050 a.o\<newline>''"]
    by (simp add: e get_summary_def)
qed

lemma parse_line_keeps_summary:
  assumes "\<forall>v' sz'. header_match l = Some (n, v', sz') \<longrightarrow> sz' \<le> 0"
  shows "map_of (total_sizes (snd (parse_line l st))) n = map_of (total_sizes (snd st)) n \<and>
         map_of (section_addresses (snd (parse_line l st))) n = map_of (section_addresses (snd st)) n"
proof (cases "header_match l")
  case None
  obtain cur p where st: "st = (cur, p)" by (cases st)
  show ?thesis
    using None unfolding st
    by (cases cur) (auto simp: parse_line_no_cursor parse_line_symbol split: option.splits)
next
  case (Some h)
  obtain m v sz where h: "h = (m, v, sz)" by (cases h)
  obtain cur p where st: "st = (cur, p)" by (cases st)
  show ?thesis
    using Some h assms unfolding st
    by (auto simp: parse_line_header map_of_update_neq)
qed

lemma parse_loop_keeps_summary:
  assumes "\<forall>l\<in>set ls. \<forall>v' sz'. header_match l = Some (n, v', sz') \<longrightarrow> sz' \<le> 0"
  shows "map_of (total_sizes (snd (parse_loop ls st))) n = map_of (total_sizes (snd st)) n \<and>
         map_of (section_addresses (snd (parse_loop ls st))) n = map_of (section_addresses (snd st)) n"
  using assms
proof (induction ls arbitrary: st)
  case Nil
  then show ?case by simp
next
  case (Cons l ls)
  have "\<forall>v' sz'. header_match l = Some (n, v', sz') \<longrightarrow> sz' \<le> 0"
    using Cons.prems by simp
  from parse_line_keeps_summary [OF this, of st] Cons.IH [of "parse_line l st"] Cons.prems
  show ?case by simp
qed

text \<open>
  Claim C6, amended. Every main-section header line sets the cursor to its section name.
  A header whose size is 0 leaves the model as it is. A header whose size is greater than 0
  overwrites the summary size and the address info stored for its name, so the values of
  the last header of that name with a non-zero size win: they are what the model holds at
  the end, whatever later lines do, as long as no later header of that name has a non-zero
  size.
\<close>

theorem C6_last_nonzero_header_wins:
  assumes "header_match line = Some (n, v, sz)"
  shows "fst (parse_loop (pre @ [line]) st) = Some n \<and>
         (sz \<le> 0 \<longrightarrow> snd (parse_loop (pre @ [line]) st) = snd (parse_loop pre st)) \<and>
         (0 < sz \<longrightarrow> (\<forall>l\<in>set post. \<forall>v' sz'. header_match l = Some (n, v', sz') \<longrightarrow> sz' \<le> 0) \<longrightarrow>
            map_of (get_summary (parse_lines (pre @ line # post))) n = Some sz \<and>
            map_of (section_addresses (parse_lines (pre @ line # post))) n =
              Some \<lparr>vma = v, lma = (case load_match line of Some a \<Rightarrow> a | None \<Rightarrow> v),
                    size_info = sz\<rparr>)"
proof -
  have step: "parse_loop (pre @ [line]) s = parse_line line (parse_loop pre s)" for s
    by (simp add: parse_loop_append)
  obtain cur p where pre: "parse_loop pre st = (cur, p)" by (cases "parse_loop pre st")
  have 1: "fst (parse_loop (pre @ [line]) st) = Some n"
    by (simp add: step pre parse_line_header [OF assms])
  have 2: "sz \<le> 0 \<longrightarrow> snd (parse_loop (pre @ [line]) st) = snd (parse_loop pre st)"
    by (simp add: step pre parse_line_header [OF assms])
  have 3: "map_of (get_summary (parse_lines (pre @ line # post))) n = Some sz \<and>
            map_of (section_addresses (parse_lines (pre @ line # post))) n =
              Some \<lparr>vma = v, lma = (case load_match line of Some a \<Rightarrow> a | None \<Rightarrow> v),
                    size_info = sz\<rparr>"
    if pos: "0 < sz" and post: "\<forall>l\<in>set post. \<forall>v' sz'. header_match l = Some (n, v', sz') \<longrightarrow> sz' \<le> 0"
  proof -
    obtain cur0 p0 where pre0: "parse_loop pre (None, init) = (cur0, p0)"
      by (cases "parse_loop pre (None, init)")
    have eq: "parse_loop (pre @ line # post) (None, init) =
              parse_loop post (parse_line line (cur0, p0))"
      by (simp add: parse_loop_append pre0)
    show ?thesis
      unfolding parse_lines_def get_summary_def eq
      using parse_loop_keeps_summary [OF post, of "parse_line line (cur0, p0)"] pos
      by (simp add: parse_line_header [OF assms] map_of_update_eq)
  qed
  from 1 2 3 show ?thesis by blast
qed

text \<open>
  Claim C6 as stated fails: the last header of \<^verbatim>\<open>.a\<close> has address \<^verbatim>\<open>0x30\<close> and size 0, and
  the model keeps the size and the address of the first one.
\<close>

theorem C6_counterexample:
  "header_match ''.a 0x30 0x0'' = Some (''.a'', 48, 0) \<and>
   get_summary (parse_lines [''.a 0x10 0x20'', ''.a 0x30 0x0'']) = [(''.a'', 32)] \<and>
   section_addresses (parse_lines [''.a 0x10 0x20'', ''.a 0x30 0x0''])
     = [(''.a'', \<lparr>vma = 16, lma = 16, size_info = 32\<rparr>)]"
  by code_simp


text \<open>
  C6 at four lines: two headers of \<^verbatim>\<open>.a\<close> with a non-zero size, then one of size 0 and a
  sub-entry.
\<close>

theorem C6_last_nonzero_header_wins_witness:
  "header_match ''.a 0x30 0x40 load address 0x50\<newline>'' = Some (''.a'', 48, 64) \<and>
   header_match ''.a 0x60 0x0\<newline>'' = Some (''.a'', 96, 0) \<and>
   header_match '' .a.x 0x60 0x8 f.o\<newline>'' = None \<and>
   fst (parse_loop ([''.a 0x10 0x20\<newline>''] @ [''.a 0x30 0x40 load address 0x50\<newline>''])
          (None, init)) = Some ''.a'' \<and>
   map_of (get_summary (parse_lines ([''.a 0x10 0x20\<newline>'']
       @ ''.a 0x30 0x40 load address 0x50\<newline>''
       # [''.a 0x60 0x0\<newline>'', '' .a.x 0x60 0x8 f.o\<newline>'']))) ''.a'' = Some 64 \<and>
   map_of (section_addresses (parse_lines ([''.a 0x10 0x20\<newline>'']
       @ ''.a 0x30 0x40 load address 0x50\<newline>''
       # [''.a 0x60 0x0\<newline>'', '' .a.x 0x60 0x8 f.o\<newline>'']))) ''.a''
     = Some \<lparr>vma = 48, lma = 80, size_info = 64\<rparr>"
proof -
  have h: "header_match ''.a 0x30 0x40 load address 0x50\<newline>'' = Some (''.a'', 48, 64)"
    by code_simp
  have l: "load_match ''.a 0x30 0x40 load address 0x50\<newline>'' = Some 80"
    by code_simp
  have p1: "header_match ''.a 0x60 0x0\<newline>'' = Some (''.a'', 96, 0)"
    by code_simp
  have p2: "header_match '' .a.x 0x60 0x8 f.o\<newline>'' = None"
    by code_simp
  have post: "\<forall>l\<in>set [''.a 0x60 0x0\<newline>'', '' .a.x 0x60 0x8 f.o\<newline>''].
      \<forall>v' sz'. header_match l = Some (''.a'', v', sz') \<longrightarrow> sz' \<le> 0"
    by (simp add: p1 p2)
  show ?thesis
    using C6_last_nonzero_header_wins [OF h, of "[''.a 0x10 0x20\<newline>'']" "(None, init)"
        "[''.a 0x60 0x0\<newline>'', '' .a.x 0x60 0x8 f.o\<newline>'']"] post h p1 p2
    by (simp add: l)
qed

lemma parse_line_cursor_kept:
  "header_match l = None \<Longrightarrow> fst (parse_line l st) = fst st"
  by (cases st; cases "fst st") (auto simp: parse_line_no_cursor parse_line_symbol)

lemma parse_loop_cursor_kept:
  "\<forall>l\<in>set ls. header_match l = None \<Longrightarrow> fst (parse_loop ls st) = fst st"
proof (induction ls arbitrary: st)
  case Nil
  then show ?case by simp
next
  case (Cons l ls)
  then have "fst (parse_loop ls (parse_line l st)) = fst (parse_line l st)" by simp
  with Cons.prems show ?case by (simp add: parse_line_cursor_kept)
qed

lemma parse_line_sections_grow:
  assumes "map_of (sections (snd st)) n = Some its"
  shows "\<exists>its'. map_of (sections (snd (parse_line l st))) n = Some (its @ its')"
proof -
  obtain cur p where st: "st = (cur, p)" by (cases st)
  show ?thesis
  proof (cases "header_match l")
    case (Some h)
    obtain m v sz where "h = (m, v, sz)" by (cases h)
    with Some assms show ?thesis
      unfolding st by (auto simp: parse_line_header)
  next
    case None
    show ?thesis
    proof (cases cur)
      case None
      with \<open>header_match l = None\<close> assms show ?thesis
        unfolding st by (simp add: parse_line_no_cursor)
    next
      case (Some c)
      show ?thesis
      proof (cases "c = n")
        case True
        with Some \<open>header_match l = None\<close> assms show ?thesis
          unfolding st
          by (auto simp: parse_line_symbol map_of_dict_append_eq split: option.splits if_splits)
      next
        case False
        then have "n \<noteq> c" by simp
        with Some \<open>header_match l = None\<close> assms show ?thesis
          unfolding st
          by (auto simp: parse_line_symbol map_of_dict_append_neq split: option.splits if_splits)
      qed
    qed
  qed
qed

lemma parse_loop_sections_grow:
  "map_of (sections (snd st)) n = Some its \<Longrightarrow>
   \<exists>its'. map_of (sections (snd (parse_loop ls st))) n = Some (its @ its')"
proof (induction ls arbitrary: st its)
  case Nil
  then show ?case by simp
next
  case (Cons l ls)
  from parse_line_sections_grow [OF Cons.prems, of l]
  obtain a where a: "map_of (sections (snd (parse_line l st))) n = Some (its @ a)" by blast
  from Cons.IH [OF a] show ?case by auto
qed

lemma parse_line_entry_stored:
  assumes "header_match l = None" and "symbol_match l = Some (sub, a, sz, g4)" and "0 < sz"
    and "n \<noteq> []"
  shows "\<exists>its. map_of (sections (snd (parse_line l (Some n, p)))) n =
           Some (its @ [\<lparr>subsection_item = sub, address = a, size_item = sz, file_item = strip g4\<rparr>])"
  using assms by (simp add: parse_line_symbol map_of_dict_append_eq)

lemma dict_add_not_Nil: "dict_add k n d \<noteq> []"
  by (simp add: dict_add_def update_not_Nil)

lemma foldl_dict_add_not_Nil:
  "d \<noteq> [] \<Longrightarrow> foldl (\<lambda>d it. dict_add (file_item it) (size_item it) d) d its \<noteq> []"
  by (induction its arbitrary: d) (auto simp: dict_add_not_Nil)

lemma file_sizes_not_Nil: "its \<noteq> [] \<Longrightarrow> file_sizes its \<noteq> []"
  by (cases its) (auto simp: file_sizes_def foldl_dict_add_not_Nil dict_add_not_Nil)

lemma slice_to_not_Nil: "0 < limit \<Longrightarrow> xs \<noteq> [] \<Longrightarrow> slice_to limit xs \<noteq> []"
  by (cases xs) (auto simp: slice_to_def)

lemma sorted_desc_not_Nil: "xs \<noteq> [] \<Longrightarrow> sorted_desc k xs \<noteq> []"
  using length_sorted_desc [of k xs] by auto

lemma top_contributors_not_Nil:
  "map_of (sections p) n = Some its \<Longrightarrow> its \<noteq> [] \<Longrightarrow> 0 < limit \<Longrightarrow>
   get_top_contributors p n limit \<noteq> []"
  by (simp add: get_top_contributors_def sorted_files_def slice_to_not_Nil file_sizes_not_Nil
      sorted_desc_not_Nil)

lemma print_top_no_message:
  "get_top_contributors p n limit \<noteq> [] \<Longrightarrow> print_top_contributors p n limit \<noteq> Inr [Message m]"
  by (auto simp: print_top_contributors_def Let_def bind_Inr_iff)

lemma print_detail_no_message:
  "get_all_contributors p n \<noteq> [] \<Longrightarrow> print_detailed_breakdown p n limit \<noteq> Inr [Message m]"
  by (auto simp: print_detailed_breakdown_def Let_def bind_Inr_iff)

text \<open>
  Claim C1, amended. A main-section header line whose size is 0 changes nothing in the
  model (no summary entry, no address info) and sets the cursor to its section name.
  A sub-entry of non-zero size parsed while that cursor is set is stored under that name:
  after the parse it is among the items of the detailed breakdown of that section, and
  neither the detailed breakdown nor the top contributors (for a limit of at least 1) is
  the "no data" result.
\<close>

theorem C1_entries_under_zero_size_header_are_kept:
  assumes "header_match h = Some (n, v, 0)"
  shows "parse_line h (cur, p) = (Some n, p) \<and>
     ((\<forall>m\<in>set mid. header_match m = None) \<longrightarrow> header_match l = None \<longrightarrow>
      symbol_match l = Some (sub, a, sz, g4) \<longrightarrow> 0 < sz \<longrightarrow>
        (let p' = parse_lines (pre @ h # mid @ l # post);
             it = \<lparr>subsection_item = sub, address = a, size_item = sz, file_item = strip g4\<rparr>
         in it \<in> set (get_all_contributors p' n) \<and>
            print_detailed_breakdown p' n limit
              \<noteq> Inr [Message (''No data found for section: '' @ n)] \<and>
            (0 < limit \<longrightarrow>
               get_top_contributors p' n limit \<noteq> [] \<and>
               print_top_contributors p' n limit
                 \<noteq> Inr [Message (''No data found for section: '' @ n)])))"
proof -
  have 1: "parse_line h (cur, p) = (Some n, p)"
    by (simp add: parse_line_header [OF assms])
  have 2: "(let p' = parse_lines (pre @ h # mid @ l # post);
             it = \<lparr>subsection_item = sub, address = a, size_item = sz, file_item = strip g4\<rparr>
         in it \<in> set (get_all_contributors p' n) \<and>
            print_detailed_breakdown p' n limit
              \<noteq> Inr [Message (''No data found for section: '' @ n)] \<and>
            (0 < limit \<longrightarrow>
               get_top_contributors p' n limit \<noteq> [] \<and>
               print_top_contributors p' n limit
                 \<noteq> Inr [Message (''No data found for section: '' @ n)]))"
    if mid: "\<forall>m\<in>set mid. header_match m = None" and l: "header_match l = None"
      and sym: "symbol_match l = Some (sub, a, sz, g4)" and sz: "0 < sz"
  proof -
    define it where "it = \<lparr>subsection_item = sub, address = a, size_item = sz, file_item = strip g4\<rparr>"
    define p' where "p' = parse_lines (pre @ h # mid @ l # post)"
    obtain c0 p0 where pre: "parse_loop pre (None, init) = (c0, p0)"
      by (cases "parse_loop pre (None, init)")
    define s1 where "s1 = parse_loop mid (Some n, p0)"
    have "fst s1 = Some n"
      unfolding s1_def using parse_loop_cursor_kept [OF mid, of "(Some n, p0)"] by simp
    then obtain p1 where s1: "s1 = (Some n, p1)" by (cases s1) auto
    have run: "parse_loop (pre @ h # mid @ l # post) (None, init)
               = parse_loop post (parse_line l (Some n, p1))"
      by (simp add: parse_loop_append pre parse_line_header [OF assms] s1 [unfolded s1_def])
    have n: "n \<noteq> []"
      using assms by (rule header_match_name)
    from parse_line_entry_stored [OF l sym sz n, of p1]
    obtain its where its: "map_of (sections (snd (parse_line l (Some n, p1)))) n = Some (its @ [it])"
      unfolding it_def by blast
    from parse_loop_sections_grow [OF its, of post]
    obtain its' where fin: "map_of (sections p') n = Some ((its @ [it]) @ its')"
      unfolding p'_def parse_lines_def run by blast
    have a: "it \<in> set (get_all_contributors p' n)"
      by (simp add: get_all_contributors_def fin set_sorted_desc)
    then have "get_all_contributors p' n \<noteq> []" by auto
    then have b: "print_detailed_breakdown p' n limit
              \<noteq> Inr [Message (''No data found for section: '' @ n)]"
      by (rule print_detail_no_message)
    have c: "get_top_contributors p' n limit \<noteq> []" if "0 < limit"
      using top_contributors_not_Nil [OF fin _ that] by simp
    from a b c show ?thesis
      unfolding Let_def it_def [symmetric] p'_def [symmetric]
      by (auto dest: print_top_no_message)
  qed
  from 1 2 show ?thesis by blast
qed

text \<open>
  Claim C1 as stated fails: the sub-entry under the zero-size header \<^verbatim>\<open>.bss\<close> is returned by
  \<^verbatim>\<open>get_top_contributors\<close> and by \<^verbatim>\<open>get_all_contributors\<close>.
\<close>

theorem C1_counterexample:
  "header_match ''.bss 0x1000 0x0\<newline>'' = Some (''.bss'', 4096, 0) \<and>
   get_top_contributors
     (parse ''.bss 0x1000 0x0\<newline> .bss.foo 0x1000 0x10 a.o\<newline>'') ''.bss'' 10 = [(''a.o'', 16)] \<and>
   get_all_contributors
     (parse ''.bss 0x1000 0x0\<newline> .bss.foo 0x1000 0x10 a.o\<newline>'') ''.bss''
     = [\<lparr>subsection_item = ''.bss.foo'', address = 4096, size_item = 16, file_item = ''a.o''\<rparr>]"
  by code_simp

text \<open>
  C1 at a zero-size header followed by a line that matches nothing and a sub-entry.
\<close>

theorem C1_entries_under_zero_size_header_are_kept_witness:
  "header_match ''.bss 0x1000 0x0\<newline>'' = Some (''.bss'', 4096, 0) \<and>
   header_match '' *fill*\<newline>'' = None \<and>
   header_match '' .bss.foo 0x1000 0x10 a.o\<newline>'' = None \<and>
   symbol_match '' .bss.foo 0x1000 0x10 a.o\<newline>'' = Some (''.bss.foo'', 4096, 16, ''a.o'') \<and>
   parse_line ''.bss 0x1000 0x0\<newline>'' (None, init) = (Some ''.bss'', init) \<and>
   \<lparr>subsection_item = ''.bss.foo'', address = 4096, size_item = 16, file_item = ''a.o''\<rparr>
     \<in> set (get_all_contributors
         (parse_lines ([] @ ''.bss 0x1000 0x0\<newline>'' # ['' *fill*\<newline>'']
            @ '' .bss.foo 0x1000 0x10 a.o\<newline>'' # [])) ''.bss'') \<and>
   get_top_contributors
         (parse_lines ([] @ ''.bss 0x1000 0x0\<newline>'' # ['' *fill*\<newline>'']
            @ '' .bss.foo 0x1000 0x10 a.o\<newline>'' # [])) ''.bss'' 10 \<noteq> []"
proof -
  have h: "header_match ''.bss 0x1000 0x0\<newline>'' = Some (''.bss'', 4096, 0)"
    by code_simp
  have m: "header_match '' *fill*\<newline>'' = None"
    by code_simp
  have l: "header_match '' .bss.foo 0x1000 0x10 a.o\<newline>'' = None"
    by code_simp
  have s: "symbol_match '' .bss.foo 0x1000 0x10 a.o\<newline>'' = Some (''.bss.foo'', 4096, 16, ''a.o'')"
    by code_simp
  have st: "strip ''a.o'' = ''a.o''"
    by code_simp
  show ?thesis
    using C1_entries_under_zero_size_header_are_kept [OF h, of None init "['' *fill*\<newline>'']"
        "'' .bss.foo 0x1000 0x10 a.o\<newline>''" "''.bss.foo''" 4096 16 "''a.o''" "[]" "[]" 10]
    by (simp add: h m l s st Let_def)
qed

text \<open>
  Claim C8. A report on an empty model or on a section name that is absent returns
  normally with its informational message: the summary when no section size is stored,
  the top contributors and the detailed breakdown when the section has no entry in the
  contribution map, the memory map when no address info is stored.
\<close>

theorem C8_no_data_results:
  "(get_summary p = [] \<longrightarrow>
      print_section_summary p = Inr [Message ''No sections found in map file'']) \<and>
   (map_of (sections p) s = None \<longrightarrow>
      print_top_contributors p s limit = Inr [Message (''No data found for section: '' @ s)] \<and>
      print_detailed_breakdown p s limit = Inr [Message (''No data found for section: '' @ s)]) \<and>
   (section_addresses p = [] \<longrightarrow>
      print_memory_map p use_vma = Inr [Message ''No memory layout information found''])"
  by (simp add: print_section_summary_def print_top_contributors_def print_detailed_breakdown_def
      print_memory_map_def get_top_contributors_def get_all_contributors_def)

text \<open>
  C8 at the model parsed from the empty text.
\<close>

theorem C8_witness:
  "get_summary (parse []) = [] \<and> map_of (sections (parse [])) ''.text'' = None \<and>
   section_addresses (parse []) = [] \<and>
   print_section_summary (parse []) = Inr [Message ''No sections found in map file''] \<and>
   print_top_contributors (parse []) ''.text'' 20
     = Inr [Message ''No data found for section: .text''] \<and>
   print_detailed_breakdown (parse []) ''.text'' 50
     = Inr [Message ''No data found for section: .text''] \<and>
   print_memory_map (parse []) True = Inr [Message ''No memory layout information found'']"
proof -
  have e: "parse [] = init"
    by (simp add: parse_def readlines_def parse_lines_def)
  show ?thesis
    using C8_no_data_results [of "parse []" "''.text''" 20 True]
      C8_no_data_results [of "parse []" "''.text''" 50 True]
    by (simp add: e init_def get_summary_def)
qed

lemma pow2_pos: "0 < (2::rat) powi k"
  by (simp add: zero_less_power_int)

lemma pow2_mono: "a \<le> b \<Longrightarrow> (2::rat) powi a \<le> 2 powi b"
  by (rule power_int_increasing) simp_all

lemma pow2_strict_mono: "a < b \<Longrightarrow> (2::rat) powi a < 2 powi b"
  by (rule power_int_strict_increasing) simp_all

lemma pow2_add: "(2::rat) powi (a + b) = 2 powi a * 2 powi b"
  by (rule power_int_add) simp

lemma pow2_diff: "(2::rat) powi (a - b) = 2 powi a / 2 powi b"
  by (rule power_int_diff) simp

lemma pow2_nat: "0 \<le> k \<Longrightarrow> (2::rat) powi k = of_int (2 ^ nat k)"
  by (simp add: power_int_def)

lemma bitlen_ge_1: "0 < p \<Longrightarrow> 1 \<le> bitlen p"
  using bitlen_eq_zero_iff [of p] bitlen_nonneg [of p] by linarith

lemma of_int_bitlen_lower:
  assumes "0 < p"
  shows "(2::rat) powi (bitlen p - 1) \<le> of_int p"
proof -
  from bitlen_bounds [OF assms] have a: "2 ^ nat (bitlen p - 1) \<le> p" by simp
  have "0 \<le> bitlen p - 1" using bitlen_ge_1 [OF assms] by simp
  then have "(2::rat) powi (bitlen p - 1) = of_int (2 ^ nat (bitlen p - 1))"
    by (rule pow2_nat)
  also have "\<dots> \<le> of_int p" using a by (simp only: of_int_le_iff)
  finally show ?thesis .
qed

lemma of_int_bitlen_upper:
  assumes "0 < p"
  shows "of_int p < (2::rat) powi (bitlen p)"
proof -
  from bitlen_bounds [OF assms] have b: "p < 2 ^ nat (bitlen p)" by simp
  have "(2::rat) powi (bitlen p) = of_int (2 ^ nat (bitlen p))"
    using bitlen_nonneg [of p] by (rule pow2_nat)
  moreover have "(of_int p :: rat) < of_int (2 ^ nat (bitlen p))"
    using b by (simp only: of_int_less_iff)
  ultimately show ?thesis by simp
qed

lemma ilog2_bounds:
  assumes "0 < x"
  shows "2 powi (ilog2 x) \<le> x" and "x < 2 powi (ilog2 x + 1)"
proof -
  obtain p q where pq: "quotient_of x = (p, q)" by (cases "quotient_of x")
  have q: "0 < q" using pq by (rule quotient_of_denom_pos)
  have x: "x = of_int p / of_int q" using pq by (rule quotient_of_div)
  have p: "0 < p"
  proof (rule ccontr)
    assume "\<not> 0 < p"
    then have "(of_int p :: rat) \<le> 0" by simp
    moreover have "(0::rat) < of_int q" using q by simp
    ultimately have "x \<le> 0" unfolding x by (simp add: divide_le_0_iff)
    with assms show False by simp
  qed
  define d where "d = bitlen p - bitlen q"
  have up: "x < 2 powi (d + 1)"
  proof -
    have "of_int p / of_int q < (2::rat) powi (bitlen p) / 2 powi (bitlen q - 1)"
      using of_int_bitlen_upper [OF p] of_int_bitlen_lower [OF q] p pow2_pos [of "bitlen q - 1"]
      by (intro frac_less) simp_all
    also have "\<dots> = 2 powi (bitlen p - (bitlen q - 1))" by (simp only: pow2_diff)
    also have "bitlen p - (bitlen q - 1) = d + 1" by (simp add: d_def)
    finally show ?thesis unfolding x .
  qed
  have lo: "2 powi (d - 1) \<le> x"
  proof -
    have "(2::rat) powi (bitlen p - 1) / 2 powi (bitlen q) \<le> of_int p / of_int q"
      using of_int_bitlen_lower [OF p] of_int_bitlen_upper [OF q] p q
      by (intro frac_le) simp_all
    moreover have "(2::rat) powi (bitlen p - 1) / 2 powi (bitlen q) = 2 powi (bitlen p - 1 - bitlen q)"
      by (simp only: pow2_diff)
    moreover have "bitlen p - 1 - bitlen q = d - 1" by (simp add: d_def)
    ultimately show ?thesis unfolding x by simp
  qed
  have il: "ilog2 x = (if 2 powi d \<le> x then d else d - 1)"
    by (simp add: ilog2_def pq d_def Let_def)
  show "2 powi (ilog2 x) \<le> x"
    using lo by (simp add: il)
  show "x < 2 powi (ilog2 x + 1)"
    using up by (auto simp: il)
qed

lemma ilog2_unique:
  assumes "0 < x" and "2 powi k \<le> x" and "x < 2 powi (k + 1)"
  shows "ilog2 x = k"
proof -
  have "ilog2 x < k + 1"
  proof (rule ccontr)
    assume "\<not> ilog2 x < k + 1"
    then have "(2::rat) powi (k + 1) \<le> 2 powi (ilog2 x)" by (intro pow2_mono) simp
    with ilog2_bounds(1) [OF assms(1)] assms(3) show False by simp
  qed
  moreover have "k < ilog2 x + 1"
  proof (rule ccontr)
    assume "\<not> k < ilog2 x + 1"
    then have "(2::rat) powi (ilog2 x + 1) \<le> 2 powi k" by (intro pow2_mono) simp
    with ilog2_bounds(2) [OF assms(1)] assms(2) show False by simp
  qed
  ultimately show ?thesis by simp
qed

lemma ilog2_mono:
  assumes "0 < x" and "x \<le> y"
  shows "ilog2 x \<le> ilog2 y"
proof (rule ccontr)
  assume "\<not> ilog2 x \<le> ilog2 y"
  then have "(2::rat) powi (ilog2 y + 1) \<le> 2 powi (ilog2 x)" by (intro pow2_mono) simp
  moreover have "0 < y" using assms by simp
  ultimately show False
    using ilog2_bounds(1) [OF assms(1)] ilog2_bounds(2) [of y] assms(2) by simp
qed

lemma round_half_even_range: "\<lfloor>x\<rfloor> \<le> round_half_even x \<and> round_half_even x \<le> \<lfloor>x\<rfloor> + 1"
  by (simp add: round_half_even_def Let_def)

lemma round_half_even_of_int: "round_half_even (of_int n) = n"
  by (simp add: round_half_even_def)

lemma round_half_even_mono:
  assumes "x \<le> y"
  shows "round_half_even x \<le> round_half_even y"
proof (cases "\<lfloor>x\<rfloor> = \<lfloor>y\<rfloor>")
  case True
  have "x - of_int \<lfloor>x\<rfloor> \<le> y - of_int \<lfloor>y\<rfloor>"
    using assms True by simp
  then show ?thesis
    using True by (auto simp: round_half_even_def Let_def)
next
  case False
  have "\<lfloor>x\<rfloor> \<le> \<lfloor>y\<rfloor>" using assms by (rule floor_mono)
  with False have "\<lfloor>x\<rfloor> + 1 \<le> \<lfloor>y\<rfloor>" by simp
  with round_half_even_range [of x] round_half_even_range [of y] show ?thesis by linarith
qed

lemma round_half_even_le: "x \<le> of_int n \<Longrightarrow> round_half_even x \<le> n"
  using round_half_even_mono [of x "of_int n"] by (simp add: round_half_even_of_int)

lemma round_half_even_ge: "of_int n \<le> x \<Longrightarrow> n \<le> round_half_even x"
  using round_half_even_mono [of "of_int n" x] by (simp add: round_half_even_of_int)

lemma round_half_even_small: "0 \<le> x \<Longrightarrow> x < 1 / 2 \<Longrightarrow> round_half_even x = 0"
proof -
  assume a: "0 \<le> x" "x < 1 / 2"
  then have "\<lfloor>x\<rfloor> = 0" by (simp add: floor_eq_iff)
  with a show ?thesis by (simp add: round_half_even_def Let_def)
qed

lemma to_double_pos: "0 < x \<Longrightarrow> to_double x = of_int (round_half_even (x / 2 powi expo x)) * 2 powi expo x"
  by (simp add: to_double_def expo_def Let_def)

lemma to_double_nonneg: "0 \<le> x \<Longrightarrow> 0 \<le> to_double x"
proof (cases "x = 0")
  case True
  then show ?thesis by (simp add: to_double_def)
next
  case False
  assume "0 \<le> x"
  with False have x: "0 < x" by simp
  have "0 \<le> x / 2 powi expo x" using x pow2_pos [of "expo x"] by simp
  then have "of_int 0 \<le> x / 2 powi expo x" by simp
  then have "0 \<le> round_half_even (x / 2 powi expo x)" by (rule round_half_even_ge)
  then show ?thesis
    using pow2_pos [of "expo x"] by (simp add: to_double_pos [OF x])
qed

lemma to_double_upper:
  assumes x: "0 < x"
  shows "to_double x \<le> 2 powi (ilog2 x + 1)"
proof -
  define k where "k = ilog2 x"
  define e where "e = expo x"
  have ub: "x < 2 powi (k + 1)" unfolding k_def using x by (rule ilog2_bounds(2))
  have z: "x / 2 powi e < 2 powi (k + 1 - e)"
    using ub pow2_pos [of e] by (simp add: pow2_diff divide_strict_right_mono)
  show ?thesis
  proof (cases "0 \<le> k + 1 - e")
    case True
    have "x / 2 powi e \<le> of_int (2 ^ nat (k + 1 - e))"
      using z pow2_nat [OF True] by simp
    then have "round_half_even (x / 2 powi e) \<le> 2 ^ nat (k + 1 - e)"
      by (rule round_half_even_le)
    then have "(of_int (round_half_even (x / 2 powi e)) :: rat) \<le> of_int (2 ^ nat (k + 1 - e))"
      by (simp only: of_int_le_iff)
    then have "(of_int (round_half_even (x / 2 powi e)) :: rat) \<le> 2 powi (k + 1 - e)"
      using pow2_nat [OF True] by simp
    then have "(of_int (round_half_even (x / 2 powi e)) :: rat) * 2 powi e
                 \<le> 2 powi (k + 1 - e) * 2 powi e"
      using pow2_pos [of e] by (simp add: mult_right_mono)
    also have "\<dots> = 2 powi (k + 1)"
      by (simp add: pow2_add [symmetric])
    finally show ?thesis
      by (simp add: to_double_pos [OF x] e_def [symmetric] k_def)
  next
    case False
    then have "k + 1 - e \<le> - 1" by simp
    then have "(2::rat) powi (k + 1 - e) \<le> 2 powi (- 1)" by (rule pow2_mono)
    moreover have "(2::rat) powi (- 1) = 1 / 2" by simp
    ultimately have "(2::rat) powi (k + 1 - e) \<le> 1 / 2" by (simp only:)
    with z have "x / 2 powi e < 1 / 2" by (rule less_le_trans)
    moreover have "0 \<le> x / 2 powi e" using x pow2_pos [of e] by simp
    ultimately have "round_half_even (x / 2 powi e) = 0" by (simp add: round_half_even_small)
    then have "to_double x = 0"
      by (simp add: to_double_pos [OF x] e_def [symmetric])
    then show ?thesis using pow2_pos [of "ilog2 x + 1"] by simp
  qed
qed

lemma to_double_lower:
  assumes x: "0 < x" and k: "expo x \<le> ilog2 x"
  shows "2 powi (ilog2 x) \<le> to_double x"
proof -
  define k where "k = ilog2 x"
  define e where "e = expo x"
  have ke: "0 \<le> k - e" using assms(2) by (simp add: k_def e_def)
  have lb: "2 powi k \<le> x" unfolding k_def using x by (rule ilog2_bounds(1))
  have "2 powi (k - e) \<le> x / 2 powi e"
    using lb pow2_pos [of e] by (simp add: pow2_diff divide_right_mono)
  then have "of_int (2 ^ nat (k - e)) \<le> x / 2 powi e"
    using pow2_nat [OF ke] by simp
  then have "2 ^ nat (k - e) \<le> round_half_even (x / 2 powi e)"
    by (rule round_half_even_ge)
  then have "(of_int (2 ^ nat (k - e)) :: rat) \<le> of_int (round_half_even (x / 2 powi e))"
    by (simp only: of_int_le_iff)
  then have "(2::rat) powi (k - e) \<le> of_int (round_half_even (x / 2 powi e))"
    using pow2_nat [OF ke] by simp
  then have "(2::rat) powi (k - e) * 2 powi e
               \<le> of_int (round_half_even (x / 2 powi e)) * 2 powi e"
    using pow2_pos [of e] by (simp add: mult_right_mono)
  moreover have "(2::rat) powi (k - e) * 2 powi e = 2 powi k"
    by (simp add: pow2_add [symmetric])
  ultimately have "(2::rat) powi k \<le> of_int (round_half_even (x / 2 powi e)) * 2 powi e"
    by (simp only:)
  moreover have "to_double x = of_int (round_half_even (x / 2 powi e)) * 2 powi e"
    unfolding e_def by (rule to_double_pos [OF x])
  ultimately show ?thesis
    unfolding k_def by (simp only:)
qed

lemma to_double_mono_pos:
  assumes x: "0 < x" and xy: "x \<le> y"
  shows "to_double x \<le> to_double y"
proof -
  have y: "0 < y" using x xy by simp
  have kk: "ilog2 x \<le> ilog2 y" using x xy by (rule ilog2_mono)
  show ?thesis
  proof (cases "expo x = expo y")
    case True
    have "x / 2 powi expo y \<le> y / 2 powi expo y"
      using xy pow2_pos [of "expo y"] by (simp add: divide_right_mono)
    then have "round_half_even (x / 2 powi expo y) \<le> round_half_even (y / 2 powi expo y)"
      by (rule round_half_even_mono)
    then have "(of_int (round_half_even (x / 2 powi expo y)) :: rat)
                 \<le> of_int (round_half_even (y / 2 powi expo y))"
      by (simp only: of_int_le_iff)
    then show ?thesis
      using pow2_pos [of "expo y"]
      by (simp add: to_double_pos [OF x] to_double_pos [OF y] True mult_right_mono)
  next
    case False
    with kk have lt: "ilog2 x < ilog2 y" and ey: "expo y \<le> ilog2 y"
      by (auto simp: expo_def max_def split: if_splits)
    have "to_double x \<le> 2 powi (ilog2 x + 1)" using x by (rule to_double_upper)
    also have "\<dots> \<le> 2 powi (ilog2 y)" using lt by (intro pow2_mono) simp
    also have "\<dots> \<le> to_double y" using y ey by (rule to_double_lower)
    finally show ?thesis .
  qed
qed

lemma to_double_mono:
  assumes "0 \<le> x" and "x \<le> y"
  shows "to_double x \<le> to_double y"
proof (cases "x = 0")
  case True
  then show ?thesis
    using to_double_nonneg [of y] assms by (simp add: to_double_def)
next
  case False
  with assms have "0 < x" by simp
  then show ?thesis using assms(2) by (rule to_double_mono_pos)
qed

lemma to_double_exact:
  assumes "0 < x" and "2 powi k \<le> x" and "x < 2 powi (k + 1)"
    and "x = of_int n * 2 powi (max (k - 52) (- 1074))"
  shows "to_double x = x"
proof -
  have k: "ilog2 x = k" using assms(1-3) by (rule ilog2_unique)
  define e where "e = max (k - 52) (- 1074)"
  have e: "expo x = e" by (simp add: expo_def k e_def)
  have q: "x / 2 powi e = of_int n"
    using assms(4) pow2_pos [of e] by (simp add: e_def)
  have "to_double x = of_int (round_half_even (x / 2 powi e)) * 2 powi e"
    by (simp only: to_double_pos [OF assms(1)] e)
  also have "\<dots> = of_int n * 2 powi e"
    by (simp only: q round_half_even_of_int)
  also have "\<dots> = x"
    using assms(4) by (simp only: e_def)
  finally show ?thesis .
qed

lemma to_double_minus: "to_double (- x) = - to_double x"
proof -
  have r: "round_half_even (- z) = - round_half_even z" for z
  proof (cases "z = of_int \<lfloor>z\<rfloor>")
    case True
    then obtain n where "z = of_int n" ..
    then show ?thesis
      using round_half_even_of_int [of n] round_half_even_of_int [of "- n"] by simp
  next
    case False
    then have c: "\<lceil>z\<rceil> = \<lfloor>z\<rfloor> + 1"
      by (metis ceiling_altdef of_int_floor_cancel)
    have f: "\<lfloor>- z\<rfloor> = - \<lfloor>z\<rfloor> - 1"
      using c by (simp add: ceiling_def)
    show ?thesis
      using False by (auto simp: round_half_even_def Let_def f)
  qed
  show ?thesis
    by (simp add: to_double_def Let_def r)
qed

lemma overflows_iff: "overflows r \<longleftrightarrow> r \<noteq> 0 \<and> 1024 \<le> ilog2 \<bar>r\<bar>"
proof (cases "r = 0")
  case True
  then show ?thesis by (simp add: overflows_def)
next
  case False
  then have pos: "0 < \<bar>r\<bar>" by simp
  have p: "(2::rat) ^ 1024 = 2 powi 1024" by simp
  show ?thesis
  proof
    assume "overflows r"
    then have a: "2 powi 1024 \<le> \<bar>r\<bar>" unfolding overflows_def p .
    have "1024 \<le> ilog2 \<bar>r\<bar>"
    proof (rule ccontr)
      assume "\<not> 1024 \<le> ilog2 \<bar>r\<bar>"
      then have "(2::rat) powi (ilog2 \<bar>r\<bar> + 1) \<le> 2 powi 1024" by (intro pow2_mono) simp
      with ilog2_bounds(2) [OF pos] a show False by simp
    qed
    with False show "r \<noteq> 0 \<and> 1024 \<le> ilog2 \<bar>r\<bar>" by simp
  next
    assume "r \<noteq> 0 \<and> 1024 \<le> ilog2 \<bar>r\<bar>"
    then have "(2::rat) powi 1024 \<le> 2 powi (ilog2 \<bar>r\<bar>)" by (intro pow2_mono) simp
    with ilog2_bounds(1) [OF pos] have "2 powi 1024 \<le> \<bar>r\<bar>" by simp
    then show "overflows r" unfolding overflows_def p .
  qed
qed

lemma overflows_code [code]: "overflows r \<longleftrightarrow> r \<noteq> 0 \<and> 1024 \<le> ilog2 \<bar>r\<bar>"
  by (rule overflows_iff)

lemma not_overflows_le_1: "\<bar>r\<bar> \<le> 1 \<Longrightarrow> \<not> overflows r"
proof -
  assume "\<bar>r\<bar> \<le> 1"
  moreover have "(1::rat) < 2 ^ 1024" by (rule one_less_power) simp_all
  ultimately show ?thesis by (simp add: overflows_def)
qed

lemma to_double_1: "to_double 1 = 1"
  by code_simp

lemma to_double_40: "to_double 40 = 40"
  by code_simp

lemma to_double_below_1: "to_double (1 - 1 / 2 ^ 53) = 1 - 1 / 2 ^ 53"
  by code_simp

lemma to_double_below_40: "to_double (40 * (1 - 1 / 2 ^ 53)) = 40 - 1 / 2 ^ 47"
  by code_simp

lemma float_of_int_40: "float_of_int 40 = Inr 40"
  by code_simp

lemma true_div_ratio:
  assumes "0 < sz" and "sz \<le> mx"
  shows "true_div sz mx = Inr (to_double (of_int sz / of_int mx))"
    and "0 \<le> to_double (of_int sz / of_int mx)"
    and "to_double (of_int sz / of_int mx) \<le> 1"
proof -
  define x :: rat where "x = of_int sz / of_int mx"
  have mx: "0 < mx" using assms by simp
  have x0: "0 \<le> x" using assms mx by (simp add: x_def)
  have x1: "x \<le> 1" using assms mx by (simp add: x_def)
  show q0: "0 \<le> to_double (of_int sz / of_int mx)"
    using x0 unfolding x_def by (rule to_double_nonneg)
  show q1: "to_double (of_int sz / of_int mx) \<le> 1"
    using to_double_mono [OF x0 x1] unfolding x_def by (simp add: to_double_1)
  from q0 q1 have "\<not> overflows (to_double (of_int sz / of_int mx))"
    by (intro not_overflows_le_1) simp
  then show "true_div sz mx = Inr (to_double (of_int sz / of_int mx))"
    using mx by (simp add: true_div_def Let_def)
qed

lemma float_mul_40:
  assumes "0 \<le> q" and "q \<le> 1"
  shows "float_mul q 40 = Inr (Finite (to_double (q * 40)))"
    and "0 \<le> to_double (q * 40)" and "to_double (q * 40) \<le> 40"
proof -
  have a: "0 \<le> q * 40" using assms by simp
  have b: "q * 40 \<le> 40" using assms by simp
  show r0: "0 \<le> to_double (q * 40)" using a by (rule to_double_nonneg)
  show r1: "to_double (q * 40) \<le> 40"
    using to_double_mono [OF a b] by (simp add: to_double_40)
  have "(40::rat) < 2 ^ 1024"
  proof -
    have "(40::rat) < 2 ^ 6" by simp
    also have "\<dots> \<le> 2 ^ 1024" by (rule power_increasing) simp_all
    finally show ?thesis .
  qed
  with r0 r1 have "\<not> overflows (to_double (q * 40))"
    by (simp add: overflows_def)
  then show "float_mul q 40 = Inr (Finite (to_double (q * 40)))"
    by (simp add: float_mul_def float_of_int_40 bind_def Let_def)
qed

lemma filled_40:
  assumes "0 < sz" and "sz \<le> mx"
  shows "filled sz mx 40 = Inr \<lfloor>to_double (to_double (of_int sz / of_int mx) * 40)\<rfloor>"
    and "0 \<le> \<lfloor>to_double (to_double (of_int sz / of_int mx) * 40)\<rfloor>"
    and "\<lfloor>to_double (to_double (of_int sz / of_int mx) * 40)\<rfloor> \<le> 40"
proof -
  define q where "q = to_double (of_int sz / of_int mx)"
  note t = true_div_ratio [OF assms, folded q_def]
  note m = float_mul_40 [OF t(2) t(3)]
  show "filled sz mx 40 = Inr \<lfloor>to_double (to_double (of_int sz / of_int mx) * 40)\<rfloor>"
    unfolding q_def [symmetric]
    using m(2) by (simp add: filled_def t(1) m(1) bind_def int_of_float_def)
  show "0 \<le> \<lfloor>to_double (to_double (of_int sz / of_int mx) * 40)\<rfloor>"
    unfolding q_def [symmetric] using m(2) by simp
  show "\<lfloor>to_double (to_double (of_int sz / of_int mx) * 40)\<rfloor> \<le> 40"
    unfolding q_def [symmetric] using m(3) by (simp add: floor_le_iff)
qed

lemma filled_40_max: "0 < mx \<Longrightarrow> \<lfloor>to_double (to_double (of_int mx / of_int mx) * 40)\<rfloor> = 40"
  by (simp add: to_double_1 to_double_40)

lemma filled_40_below_max:
  assumes "0 < sz" and "sz < mx" and "mx \<le> 2 ^ 53"
  shows "\<lfloor>to_double (to_double (of_int sz / of_int mx) * 40)\<rfloor> < 40"
proof -
  define x :: rat where "x = of_int sz / of_int mx"
  have mx: "0 < mx" using assms by simp
  have x0: "0 \<le> x" using assms mx by (simp add: x_def)
  have "sz * 9007199254740992 \<le> 9007199254740991 * mx"
    using assms by simp
  then have "(of_int (sz * 9007199254740992) :: rat) \<le> of_int (9007199254740991 * mx)"
    by (simp only: of_int_le_iff)
  then have "(of_int sz :: rat) * 9007199254740992 \<le> 9007199254740991 * of_int mx"
    by simp
  then have "x \<le> 9007199254740991 / 9007199254740992"
    using mx by (simp add: x_def field_simps)
  then have x1: "x \<le> 1 - 1 / 2 ^ 53" by simp
  have q1: "to_double x \<le> 1 - 1 / 2 ^ 53"
    using to_double_mono [OF x0 x1] by (simp only: to_double_below_1)
  have q0: "0 \<le> to_double x" using x0 by (rule to_double_nonneg)
  have a: "0 \<le> to_double x * 40" using q0 by simp
  have b: "to_double x * 40 \<le> 40 * (1 - 1 / 2 ^ 53)" using q1 by simp
  have "to_double (to_double x * 40) \<le> 40 - 1 / 2 ^ 47"
    using to_double_mono [OF a b] by (simp only: to_double_below_40)
  then have "to_double (to_double x * 40) < 40" by simp
  then show ?thesis
    unfolding x_def by (simp add: floor_less_iff)
qed

lemma max_value_of_ge: "(nm, sz) \<in> set summary \<Longrightarrow> sz \<le> max_value_of summary"
proof -
  assume a: "(nm, sz) \<in> set summary"
  then obtain v vs where vs: "map snd summary = v # vs" by (cases summary) auto
  have "fold max vs v = Max (set (v # vs))" by (simp only: Max.set_eq_fold)
  moreover have "sz \<in> set (v # vs)" using a vs [symmetric] by force
  ultimately show ?thesis
    by (simp add: max_value_of_def vs del: set_simps)
qed

lemma draw_bar_40:
  assumes "0 < sz" and "sz \<le> mx"
  shows "draw_bar sz mx 40 =
    Inr (times CHR ''#'' \<lfloor>to_double (to_double (of_int sz / of_int mx) * 40)\<rfloor>
         @ times CHR ''-'' (40 - \<lfloor>to_double (to_double (of_int sz / of_int mx) * 40)\<rfloor>))"
  using assms by (simp add: draw_bar_def filled_40(1) [OF assms] bind_def)

lemma summary_row_bar:
  "summary_row tot mx (nm, sz) = Inr row \<Longrightarrow>
   \<exists>txt c pct bar. row = SummaryRow nm txt c pct bar \<and> draw_bar sz mx 40 = Inr bar"
  by (auto simp: summary_row_def Let_def bind_Inr_iff)

lemma summary_rows:
  assumes "print_section_summary p = Inr out" and "(nm, sz) \<in> set (get_summary p)"
  shows "\<exists>txt c pct bar. SummaryRow nm txt c pct bar \<in> set out \<and>
           draw_bar sz (max_value_of (get_summary p)) 40 = Inr bar"
proof -
  from assms(2) have ne: "get_summary p \<noteq> []" by auto
  from assms(1) ne obtain rows t where
    rows: "all_ok (map (summary_row (sum_list (map snd (get_summary p)))
                     (max_value_of (get_summary p))) (sorted_desc snd (get_summary p))) = Inr rows"
    and out: "out = rows @ [SummaryTotal t]"
    by (auto simp: print_section_summary_def Let_def bind_Inr_iff)
  from rows have m: "map (summary_row (sum_list (map snd (get_summary p)))
                     (max_value_of (get_summary p))) (sorted_desc snd (get_summary p)) = map Inr rows"
    by (simp only: all_ok_Inr_iff)
  define f where "f = summary_row (sum_list (map snd (get_summary p))) (max_value_of (get_summary p))"
  have "(nm, sz) \<in> set (sorted_desc snd (get_summary p))"
    using assms(2) by (simp add: set_sorted_desc)
  then have "f (nm, sz) \<in> f ` set (sorted_desc snd (get_summary p))"
    by (rule imageI)
  also have "\<dots> = set (map f (sorted_desc snd (get_summary p)))"
    by simp
  also have "\<dots> = set (map Inr rows)"
    using m by (simp only: f_def)
  finally obtain row where row: "row \<in> set rows"
    and r: "summary_row (sum_list (map snd (get_summary p))) (max_value_of (get_summary p)) (nm, sz) = Inr row"
    unfolding f_def by auto
  from summary_row_bar [OF r] row show ?thesis
    unfolding out by auto
qed

text \<open>
  Claim C5, amended. In the summary view the filled width of a section's bar is
  \<^verbatim>\<open>int((size / max_size) * 40)\<close>: the quotient and the product are rounded to binary64
  numbers and the product is truncated, not rounded to the nearest integer. For every
  input text and every section of its summary the computation raises nothing, the filled
  width lies between 0 and the bar width 40, it is 40 for a section of maximum size, and,
  when the maximum size is at most \<open>2 ^ 53\<close>, only for such a section; the bar of the
  section's row has that many filled places.
\<close>

theorem C5_filled_width_truncates:
  assumes "(nm, sz) \<in> set (get_summary (parse text))"
  shows "\<exists>n. filled sz (max_value_of (get_summary (parse text))) 40 = Inr n \<and>
     n = \<lfloor>to_double (to_double (of_int sz / of_int (max_value_of (get_summary (parse text)))) * 40)\<rfloor> \<and>
     0 \<le> n \<and> n \<le> 40 \<and>
     (sz = max_value_of (get_summary (parse text)) \<longrightarrow> n = 40) \<and>
     (max_value_of (get_summary (parse text)) \<le> 2 ^ 53 \<longrightarrow> n = 40 \<longrightarrow>
        sz = max_value_of (get_summary (parse text))) \<and>
     (\<forall>out. print_section_summary (parse text) = Inr out \<longrightarrow>
        (\<exists>txt c pct. SummaryRow nm txt c pct (times CHR ''#'' n @ times CHR ''-'' (40 - n))
           \<in> set out))"
proof -
  define mx where "mx = max_value_of (get_summary (parse text))"
  define n where "n = \<lfloor>to_double (to_double (of_int sz / of_int mx) * 40)\<rfloor>"
  have pos: "0 < sz"
    using parse_positive [of "text"] assms by (auto simp: sizes_positive_def get_summary_def)
  have le: "sz \<le> mx"
    unfolding mx_def using assms by (rule max_value_of_ge)
  note f = filled_40 [OF pos le, folded n_def]
  have 1: "sz = mx \<longrightarrow> n = 40"
    using pos filled_40_max [of mx] by (auto simp: n_def)
  have 2: "mx \<le> 2 ^ 53 \<longrightarrow> n = 40 \<longrightarrow> sz = mx"
  proof (intro impI)
    assume a: "mx \<le> 2 ^ 53" and b: "n = 40"
    show "sz = mx"
    proof (rule ccontr)
      assume "sz \<noteq> mx"
      with le have lt: "sz < mx" by simp
      have "n < 40"
        unfolding n_def by (rule filled_40_below_max [OF pos lt a])
      with b show False by simp
    qed
  qed
  have 3: "\<exists>txt c pct. SummaryRow nm txt c pct (times CHR ''#'' n @ times CHR ''-'' (40 - n)) \<in> set out"
    if "print_section_summary (parse text) = Inr out" for out
    using summary_rows [OF that assms] draw_bar_40 [OF pos le]
    by (auto simp: mx_def n_def)
  from f 1 2 3 show ?thesis
    unfolding mx_def [symmetric] n_def [symmetric] by blast
qed

text \<open>
  Claim C5 as stated fails: for sizes 3 and 2 the bar of the smaller section has 26 filled
  places, and \<^verbatim>\<open>round(2 / 3 * 40)\<close> is 27.
\<close>

theorem C5_counterexample:
  "print_section_summary (parse ''.a 0x0 0x3\<newline>.b 0x10 0x2\<newline>'')
     = Inr [SummaryRow ''.a'' (B 3) Red (Finite 60) (times CHR ''#'' 40 @ times CHR ''-'' 0),
            SummaryRow ''.b'' (B 2) Red (Finite 40) (times CHR ''#'' 26 @ times CHR ''-'' 14),
            SummaryTotal (B 5)] \<and>
   filled 2 3 40 = Inr 26 \<and> spec_filled 2 3 40 = 27"
  by code_simp

text \<open>
  C5 at the two sections of sizes 3 and 2.
\<close>

theorem C5_filled_width_truncates_witness:
  "(''.b'', 2) \<in> set (get_summary (parse ''.a 0x0 0x3\<newline>.b 0x10 0x2\<newline>'')) \<and>
   max_value_of (get_summary (parse ''.a 0x0 0x3\<newline>.b 0x10 0x2\<newline>'')) = 3 \<and>
   filled 2 3 40 = Inr 26 \<and>
   (\<exists>n. filled 2 (max_value_of (get_summary (parse ''.a 0x0 0x3\<newline>.b 0x10 0x2\<newline>''))) 40 = Inr n \<and>
        0 \<le> n \<and> n \<le> 40)"
proof -
  have s: "get_summary (parse ''.a 0x0 0x3\<newline>.b 0x10 0x2\<newline>'') = [(''.a'', 3), (''.b'', 2)]"
    by code_simp
  have m: "(''.b'', 2) \<in> set (get_summary (parse ''.a 0x0 0x3\<newline>.b 0x10 0x2\<newline>''))"
    by (simp add: s)
  have f: "filled 2 3 40 = Inr 26"
    by code_simp
  have x: "max_value_of [(''.a'', 3), (''.b'', 2)] = 3"
    by code_simp
  from C5_filled_width_truncates [OF m] s x f show ?thesis
    by auto
qed

text \<open>
  Claim C7, amended. The parser records a contribution entry for a line only when the
  line is not a main-section header, the cursor is set and the sub-entry pattern matches
  with a hexadecimal size greater than 0 and a fourth field that is non-empty as matched
  (and holds no line feed); a header line is never treated as a sub-entry. The stored
  file is that field with the whitespace at both ends removed: it is empty exactly when
  the field consists of whitespace only.
\<close>

theorem C7_entry_only_on_sub_entry_match:
  assumes "sections (snd (parse_line line (cur, p))) \<noteq> sections p"
  shows "header_match line = None \<and>
     (\<exists>c sub a sz g4. cur = Some c \<and> c \<noteq> [] \<and>
        symbol_match line = Some (sub, a, sz, g4) \<and> 0 < sz \<and>
        g4 \<noteq> [] \<and> CHR 0x0A \<notin> set g4 \<and>
        sections (snd (parse_line line (cur, p)))
          = dict_append c \<lparr>subsection_item = sub, address = a, size_item = sz,
                             file_item = strip g4\<rparr> (sections p) \<and>
        (strip g4 = [] \<longleftrightarrow> (\<forall>ch\<in>set g4. is_space ch)))"
proof -
  have h: "header_match line = None"
  proof (cases "header_match line")
    case None
    then show ?thesis .
  next
    case (Some t)
    obtain n v sz where "t = (n, v, sz)" by (cases t)
    with Some assms show ?thesis
      by (auto simp: parse_line_header split: if_splits)
  qed
  from assms h obtain c where c: "cur = Some c"
    by (cases cur) (auto simp: parse_line_no_cursor)
  from assms h c have ne: "c \<noteq> []"
    by (auto simp: parse_line_symbol)
  from assms h c ne obtain sub a sz g4 where m: "symbol_match line = Some (sub, a, sz, g4)"
    by (cases "symbol_match line") (auto simp: parse_line_symbol)
  from assms h c ne m have sz: "0 < sz"
    by (auto simp: parse_line_symbol split: if_splits)
  have s: "sections (snd (parse_line line (cur, p)))
          = dict_append c \<lparr>subsection_item = sub, address = a, size_item = sz,
                             file_item = strip g4\<rparr> (sections p)"
    using h c ne m sz by (simp add: parse_line_symbol)
  from h c ne m sz s symbol_match_group4 [OF m] strip_empty_iff [of g4] show ?thesis
    by blast
qed

text \<open>
  Claim C7 as stated fails: on a sub-entry line that ends in two spaces the fourth field
  is one space, and the entry is stored with the empty string as its file.
\<close>

theorem C7_counterexample:
  "symbol_match ''  .text 0x1 0x2  \<newline>'' = Some (''.text'', 1, 2, '' '') \<and>
   sections (parse ''.text 0x0 0x10\<newline>  .text 0x1 0x2  \<newline>'')
     = [(''.text'', [\<lparr>subsection_item = ''.text'', address = 1, size_item = 2,
                       file_item = []\<rparr>])]"
  by code_simp

text \<open>
  C7 at a sub-entry line read while the cursor is \<^verbatim>\<open>.text\<close>.
\<close>

theorem C7_entry_only_on_sub_entry_match_witness:
  "sections (snd (parse_line ''  .text.foo 0x00280180 0x00000050 a.o\<newline>'' (Some ''.text'', init)))
     \<noteq> sections init \<and>
   header_match ''  .text.foo 0x00280180 0x00000050 a.o\<newline>'' = None \<and>
   symbol_match ''  .text.foo 0x00280180 0x00000050 a.o\<newline>''
     = Some (''.text.foo'', 2621824, 80, ''a.o'') \<and>
   sections (snd (parse_line ''  .text.foo 0x00280180 0x00000050 a.o\<newline>'' (Some ''.text'', init)))
     = [(''.text'', [\<lparr>subsection_item = ''.text.foo'', address = 2621824, size_item = 80,
                       file_item = ''a.o''\<rparr>])]"
proof -
  have e: "sections (snd (parse_line ''  .text.foo 0x00280180 0x00000050 a.o\<newline>''
             (Some ''.text'', init)))
     = [(''.text'', [\<lparr>subsection_item = ''.text.foo'', address = 2621824, size_item = 80,
                       file_item = ''a.o''\<rparr>])]"
    by code_simp
  have i: "sections init = []"
    by (simp add: init_def)
  have n: "sections (snd (parse_line ''  .text.foo 0x00280180 0x00000050 a.o\<newline>''
             (Some ''.text'', init))) \<noteq> sections init"
    by (simp add: e i)
  have m: "symbol_match ''  .text.foo 0x00280180 0x00000050 a.o\<newline>''
     = Some (''.text.foo'', 2621824, 80, ''a.o'')"
    by code_simp
  from C7_entry_only_on_sub_entry_match [OF n] n m e show ?thesis
    by simp
qed

text \<open>
  Claim C2. Parsing the three lines \<^verbatim>\<open>.text 0x00280180 0x000000a0\<close>,
  \<^verbatim>\<open>  .text.foo 0x00280180 0x00000050 a.o\<close> and \<^verbatim>\<open>  .text.bar 0x002801d0 0x00000050 b.o\<close>
  gives a summary in which \<^verbatim>\<open>.text\<close> has 160 bytes; the top contributors of \<^verbatim>\<open>.text\<close>
  with limit 10 are \<^verbatim>\<open>a.o\<close> with 80 bytes and \<^verbatim>\<open>b.o\<close> with 80 bytes, and the report
  shows 50 percent for each.
\<close>

theorem C2_end_to_end_example:
  "get_summary (parse ''.text 0x00280180 0x000000a0\<newline>  .text.foo 0x00280180 0x00000050 a.o\<newline>  .text.bar 0x002801d0 0x00000050 b.o\<newline>'')
     = [(''.text'', 160)] \<and>
   get_top_contributors (parse ''.text 0x00280180 0x000000a0\<newline>  .text.foo 0x00280180 0x00000050 a.o\<newline>  .text.bar 0x002801d0 0x00000050 b.o\<newline>'')
     ''.text'' 10 = [(''a.o'', 80), (''b.o'', 80)] \<and>
   print_top_contributors (parse ''.text 0x00280180 0x000000a0\<newline>  .text.foo 0x00280180 0x00000050 a.o\<newline>  .text.bar 0x002801d0 0x00000050 b.o\<newline>'')
     ''.text'' 10
     = Inr [ContribTitle 10 ''.text'',
            ContribRow 1 (B 80) (Finite 50) ''a.o'' Red,
            ContribRow 2 (B 80) (Finite 50) ''b.o'' Red]"
  by code_simp

lemma marks_Nil: "marks [] = []"
  by (simp add: marks_def map_filter_simps)

lemma marks_Cons: "marks (l # ls) = (case mark l of None \<Rightarrow> marks ls | Some m \<Rightarrow> m # marks ls)"
  by (simp add: marks_def map_filter_simps split: option.splits)

lemma marks_append: "marks (xs @ ys) = marks xs @ marks ys"
  by (induction xs) (auto simp: marks_Nil marks_Cons split: option.splits)

lemma set_marks: "set (marks ls) = {m. \<exists>l\<in>set ls. mark l = Some m}"
  by (induction ls) (auto simp: marks_Nil marks_Cons split: option.splits)

lemma gap_in_marks: "Inl (a, b) \<in> set (marks ls) \<longleftrightarrow> (\<exists>t bar. GapRow a b t bar \<in> set ls)"
proof
  assume "Inl (a, b) \<in> set (marks ls)"
  then obtain l where l: "l \<in> set ls" "mark l = Some (Inl (a, b))"
    by (auto simp: set_marks)
  have "\<exists>t bar. l = GapRow a b t bar"
    by (cases l) (use l(2) in auto)
  with l(1) show "\<exists>t bar. GapRow a b t bar \<in> set ls"
    by auto
next
  assume "\<exists>t bar. GapRow a b t bar \<in> set ls"
  then show "Inl (a, b) \<in> set (marks ls)"
    by (force simp: set_marks)
qed

lemma mm_body_Inr:
  assumes "mm_body rt uv (pe, used, gaps) s = Inr (ls, st')"
  shows "st' = (end_addr s, used + size_sec s, gaps + (if start s > pe then start s - pe else 0))"
    and "marks ls = (if start s > pe then [Inl (pe, start s)] else [])
                      @ [Inr (name s, start s, end_addr s)]"
    and "\<forall>a b t bar. GapRow a b t bar \<in> set ls \<longrightarrow> format_size (b - a) = Inr t"
  using assms
  by (auto simp: mm_body_def Let_def bind_Inr_iff marks_Nil marks_Cons marks_append
      split: if_splits prod.splits)

lemma walk_marks_Nil: "walk_marks q [] = []"
  by (simp add: walk_marks_def)

lemma walk_marks_Cons:
  "walk_marks q (s # ss) =
     (if start s > q then [Inl (q, start s)] else []) @ [Inr (name s, start s, end_addr s)]
     @ walk_marks (end_addr s) ss"
  by (simp add: walk_marks_def)

lemma walk_gaps_Nil: "walk_gaps q [] = 0"
  by (simp add: walk_gaps_def)

lemma walk_gaps_Cons:
  "walk_gaps q (s # ss) = (if start s > q then start s - q else 0) + walk_gaps (end_addr s) ss"
  by (simp add: walk_gaps_def)

lemma mm_loop_Inr:
  "mm_loop rt uv secs (pe, used, gaps) = Inr (ls, st') \<Longrightarrow>
     st' = ((if secs = [] then pe else end_addr (last secs)),
            used + sum_list (map size_sec secs), gaps + walk_gaps pe secs) \<and>
     marks ls = walk_marks pe secs \<and>
     (\<forall>a b t bar. GapRow a b t bar \<in> set ls \<longrightarrow> format_size (b - a) = Inr t)"
proof (induction secs arbitrary: pe used gaps ls st')
  case Nil
  then show ?case
    by (auto simp: marks_Nil walk_marks_Nil walk_gaps_Nil)
next
  case (Cons s ss)
  from Cons.prems obtain l1 s1 l2 where
    b: "mm_body rt uv (pe, used, gaps) s = Inr (l1, s1)" and
    r: "mm_loop rt uv ss s1 = Inr (l2, st')" and ls: "ls = l1 @ l2"
    by (auto split: sum.splits prod.splits)
  note B = mm_body_Inr [OF b]
  from r have r': "mm_loop rt uv ss (end_addr s, used + size_sec s,
      gaps + (if start s > pe then start s - pe else 0)) = Inr (l2, st')"
    by (simp only: B(1))
  note I = Cons.IH [OF r']
  have 1: "st' = ((if s # ss = [] then pe else end_addr (last (s # ss))),
            used + sum_list (map size_sec (s # ss)), gaps + walk_gaps pe (s # ss))"
    using I by (auto simp: walk_gaps_Cons)
  have 2: "marks ls = walk_marks pe (s # ss)"
    using I B(2) by (simp add: ls marks_append walk_marks_Cons)
  have 3: "\<forall>a b t bar. GapRow a b t bar \<in> set ls \<longrightarrow> format_size (b - a) = Inr t"
  proof (intro allI impI)
    fix a b t bar
    assume "GapRow a b t bar \<in> set ls"
    then have "GapRow a b t bar \<in> set l1 \<or> GapRow a b t bar \<in> set l2"
      by (simp add: ls)
    then show "format_size (b - a) = Inr t"
      using I B(3) by blast
  qed
  from 1 2 3 show ?case by blast
qed

lemma print_memory_map_Inr:
  assumes "print_memory_map p uv = Inr out" and "section_addresses p \<noteq> []"
  shows "\<exists>span ls u g. out = [Region (start (hd (sort_key start (all_sections p uv))))
                (end_addr (last (sort_key start (all_sections p uv)))) span] @ ls
              @ [TotalUsed u, TotalGaps g] \<and>
           marks ls = walk_marks (start (hd (sort_key start (all_sections p uv))))
                        (sort_key start (all_sections p uv)) \<and>
           (\<forall>a b t bar. GapRow a b t bar \<in> set ls \<longrightarrow> format_size (b - a) = Inr t) \<and>
           format_size (sum_list (map size_sec (sort_key start (all_sections p uv)))) = Inr u \<and>
           format_size (walk_gaps (start (hd (sort_key start (all_sections p uv))))
                          (sort_key start (all_sections p uv))) = Inr g"
proof -
  define secs where "secs = sort_key start (all_sections p uv)"
  from assms obtain span ls st u g where
    l: "mm_loop (end_addr (last secs) - start (hd secs)) uv secs (start (hd secs), 0, 0) = Inr (ls, st)"
    and u: "format_size (fst (snd st)) = Inr u" and g: "format_size (snd (snd st)) = Inr g"
    and out: "out = [Region (start (hd secs)) (end_addr (last secs)) span] @ ls
                @ [TotalUsed u, TotalGaps g]"
    by (auto simp: print_memory_map_def Let_def bind_Inr_iff secs_def split: prod.splits)
  note L = mm_loop_Inr [OF l]
  from L u g out show ?thesis
    unfolding secs_def [symmetric] by auto
qed

lemma marks_print_memory_map:
  assumes "print_memory_map p uv = Inr out" and "section_addresses p \<noteq> []"
  shows "marks out = walk_marks (start (hd (sort_key start (all_sections p uv))))
                        (sort_key start (all_sections p uv))"
proof -
  from print_memory_map_Inr [OF assms] obtain span ls u g where
    "out = [Region (start (hd (sort_key start (all_sections p uv))))
                (end_addr (last (sort_key start (all_sections p uv)))) span] @ ls
              @ [TotalUsed u, TotalGaps g]"
    and "marks ls = walk_marks (start (hd (sort_key start (all_sections p uv))))
                        (sort_key start (all_sections p uv))"
    by blast
  then show ?thesis
    by (simp add: marks_append marks_Cons marks_Nil)
qed

lemma sum_list_insort_key: "sum_list (map f (insort_key k x xs)) = f x + sum_list (map f xs)"
  for f :: "'a \<Rightarrow> int"
  by (induction xs) auto

lemma sum_list_sort_key: "sum_list (map f (sort_key k xs)) = sum_list (map f xs)"
  for f :: "'a \<Rightarrow> int"
  by (induction xs) (auto simp: sum_list_insort_key)

lemma sum_size_all_sections:
  "sum_list (map size_sec (all_sections p uv)) = sum_list (map (\<lambda>(nm, info). size_info info) (section_addresses p))"
  by (simp add: all_sections_def comp_def case_prod_unfold Let_def)

text \<open>
  Claim C3. When the memory map is rendered, the sections are sorted ascending by start
  address (the sort is stable) and walked with \<open>prev_end\<close> initialised to the first
  section's start and set to each section's end after it; the gap and section records of
  the output are, in order, those of that walk: a gap record stands before a section
  exactly when the section's start is greater than \<open>prev_end\<close>, it spans from \<open>prev_end\<close>
  to the start, and its size is their difference. For the two sections \<open>[0,100)\<close> and
  \<open>[150,200)\<close> the output is one gap of size 50 from 100 to 150 between the two sections,
  150 bytes used and 50 bytes of gaps.
\<close>

theorem C3_gap_detection:
  "(print_memory_map p use_vma = Inr out \<longrightarrow> section_addresses p \<noteq> [] \<longrightarrow>
      marks out = walk_marks (start (hd (sort_key start (all_sections p use_vma))))
                    (sort_key start (all_sections p use_vma)) \<and>
      (\<forall>a b t bar. GapRow a b t bar \<in> set out \<longrightarrow> format_size (b - a) = Inr t) \<and>
      (\<exists>ls u g. out = ls @ [TotalUsed u, TotalGaps g] \<and>
         format_size (sum_list (map size_sec (all_sections p use_vma))) = Inr u \<and>
         format_size (walk_gaps (start (hd (sort_key start (all_sections p use_vma))))
                        (sort_key start (all_sections p use_vma))) = Inr g)) \<and>
   print_memory_map (parse ''.a 0x0 0x64\<newline>.b 0x96 0x32\<newline>'') True
     = Inr [Region 0 200 (B 200),
            SectionRow ''.a'' 0 100 (B 100) Green, BarRow (times CHR ''#'' 30),
            GapRow 100 150 (B 50) (times CHR ''.'' 10),
            SectionRow ''.b'' 150 200 (B 50) Green, BarRow (times CHR ''#'' 15),
            TotalUsed (B 150), TotalGaps (B 50)]"
proof -
  have 1: "marks out = walk_marks (start (hd (sort_key start (all_sections p use_vma))))
                    (sort_key start (all_sections p use_vma)) \<and>
      (\<forall>a b t bar. GapRow a b t bar \<in> set out \<longrightarrow> format_size (b - a) = Inr t) \<and>
      (\<exists>ls u g. out = ls @ [TotalUsed u, TotalGaps g] \<and>
         format_size (sum_list (map size_sec (all_sections p use_vma))) = Inr u \<and>
         format_size (walk_gaps (start (hd (sort_key start (all_sections p use_vma))))
                        (sort_key start (all_sections p use_vma))) = Inr g)"
    if a: "print_memory_map p use_vma = Inr out" and b: "section_addresses p \<noteq> []"
  proof -
    from print_memory_map_Inr [OF a b] obtain span ls u g where
      out: "out = [Region (start (hd (sort_key start (all_sections p use_vma))))
                (end_addr (last (sort_key start (all_sections p use_vma)))) span] @ ls
              @ [TotalUsed u, TotalGaps g]"
      and gp: "\<forall>a b t bar. GapRow a b t bar \<in> set ls \<longrightarrow> format_size (b - a) = Inr t"
      and u: "format_size (sum_list (map size_sec (sort_key start (all_sections p use_vma)))) = Inr u"
      and g: "format_size (walk_gaps (start (hd (sort_key start (all_sections p use_vma))))
                          (sort_key start (all_sections p use_vma))) = Inr g"
      by blast
    have x: "\<forall>a b t bar. GapRow a b t bar \<in> set out \<longrightarrow> format_size (b - a) = Inr t"
      using gp unfolding out by auto
    have y: "\<exists>ls u g. out = ls @ [TotalUsed u, TotalGaps g] \<and>
         format_size (sum_list (map size_sec (all_sections p use_vma))) = Inr u \<and>
         format_size (walk_gaps (start (hd (sort_key start (all_sections p use_vma))))
                        (sort_key start (all_sections p use_vma))) = Inr g"
      using u g unfolding out sum_list_sort_key
      by (intro exI [of _ "[Region (start (hd (sort_key start (all_sections p use_vma))))
                (end_addr (last (sort_key start (all_sections p use_vma)))) span] @ ls"]
          exI [of _ u] exI [of _ g]) simp
    from marks_print_memory_map [OF a b] x y show ?thesis by blast
  qed
  have 2: "print_memory_map (parse ''.a 0x0 0x64\<newline>.b 0x96 0x32\<newline>'') True
     = Inr [Region 0 200 (B 200),
            SectionRow ''.a'' 0 100 (B 100) Green, BarRow (times CHR ''#'' 30),
            GapRow 100 150 (B 50) (times CHR ''.'' 10),
            SectionRow ''.b'' 150 200 (B 50) Green, BarRow (times CHR ''#'' 15),
            TotalUsed (B 150), TotalGaps (B 50)]"
    by code_simp
  from 1 2 show ?thesis by blast
qed

text \<open>
  C3 at the two sections \<open>[0,100)\<close> and \<open>[150,200)\<close>: the records of the output and of the
  walk.
\<close>

theorem C3_gap_detection_witness:
  "section_addresses (parse ''.a 0x0 0x64\<newline>.b 0x96 0x32\<newline>'') \<noteq> [] \<and>
   marks [Region 0 200 (B 200),
            SectionRow ''.a'' 0 100 (B 100) Green, BarRow (times CHR ''#'' 30),
            GapRow 100 150 (B 50) (times CHR ''.'' 10),
            SectionRow ''.b'' 150 200 (B 50) Green, BarRow (times CHR ''#'' 15),
            TotalUsed (B 150), TotalGaps (B 50)]
     = [Inr (''.a'', 0, 100), Inl (100, 150), Inr (''.b'', 150, 200)] \<and>
   walk_marks (start (hd (sort_key start
       (all_sections (parse ''.a 0x0 0x64\<newline>.b 0x96 0x32\<newline>'') True))))
     (sort_key start (all_sections (parse ''.a 0x0 0x64\<newline>.b 0x96 0x32\<newline>'') True))
     = [Inr (''.a'', 0, 100), Inl (100, 150), Inr (''.b'', 150, 200)]"
proof -
  have s: "section_addresses (parse ''.a 0x0 0x64\<newline>.b 0x96 0x32\<newline>'') \<noteq> []"
    by code_simp
  have m: "marks [Region 0 200 (B 200),
            SectionRow ''.a'' 0 100 (B 100) Green, BarRow (times CHR ''#'' 30),
            GapRow 100 150 (B 50) (times CHR ''.'' 10),
            SectionRow ''.b'' 150 200 (B 50) Green, BarRow (times CHR ''#'' 15),
            TotalUsed (B 150), TotalGaps (B 50)]
     = [Inr (''.a'', 0, 100), Inl (100, 150), Inr (''.b'', 150, 200)]"
    by (simp add: marks_Cons marks_Nil)
  from C3_gap_detection [of "parse ''.a 0x0 0x64\<newline>.b 0x96 0x32\<newline>''" True
      "[Region 0 200 (B 200),
            SectionRow ''.a'' 0 100 (B 100) Green, BarRow (times CHR ''#'' 30),
            GapRow 100 150 (B 50) (times CHR ''.'' 10),
            SectionRow ''.b'' 150 200 (B 50) Green, BarRow (times CHR ''#'' 15),
            TotalUsed (B 150), TotalGaps (B 50)]"] s m
  show ?thesis by simp
qed

lemma map_of_dict_add:
  "map_of (dict_add k n d) f =
     (if f = k then Some ((case map_of d k of None \<Rightarrow> 0 | Some m \<Rightarrow> m) + n) else map_of d f)"
  by (simp add: dict_add_def update_conv')

lemma distinct_dict_add: "distinct (map fst d) \<Longrightarrow> distinct (map fst (dict_add k n d))"
  by (simp add: dict_add_def distinct_update)

lemma distinct_foldl_dict_add:
  "distinct (map fst d) \<Longrightarrow>
   distinct (map fst (foldl (\<lambda>d it. dict_add (file_item it) (size_item it) d) d its))"
  by (induction its arbitrary: d) (auto simp: distinct_dict_add)

lemma map_of_foldl_dict_add:
  "map_of (foldl (\<lambda>d it. dict_add (file_item it) (size_item it) d) d its) f =
     (if map_of d f = None \<and> f \<notin> file_item ` set its then None
      else Some ((case map_of d f of None \<Rightarrow> 0 | Some m \<Rightarrow> m)
                 + sum_list (map size_item (filter (\<lambda>it. file_item it = f) its))))"
proof (induction its arbitrary: d)
  case Nil
  then show ?case by (auto split: option.splits)
next
  case (Cons it its)
  show ?case
    by (simp add: Cons.IH map_of_dict_add split: option.splits)
qed

lemma distinct_file_sizes: "distinct (map fst (file_sizes its))"
  unfolding file_sizes_def by (rule distinct_foldl_dict_add) simp

lemma map_of_file_sizes:
  "map_of (file_sizes its) f =
     (if f \<in> file_item ` set its
      then Some (sum_list (map size_item (filter (\<lambda>it. file_item it = f) its))) else None)"
  by (simp add: file_sizes_def map_of_foldl_dict_add)

lemma set_sorted_files: "set (sorted_files its) = set (file_sizes its)"
  by (simp add: sorted_files_def set_sorted_desc)

lemma distinct_sorted_files: "distinct (map fst (sorted_files its))"
proof -
  have "distinct (map fst (file_sizes its))" by (rule distinct_file_sizes)
  then have "distinct (file_sizes its) \<and> inj_on fst (set (file_sizes its))"
    by (simp only: distinct_map)
  then have "distinct (sorted_files its) \<and> inj_on fst (set (sorted_files its))"
    by (simp add: sorted_files_def sorted_desc_def)
  then show ?thesis by (simp only: distinct_map)
qed

lemma sorted_files_mem:
  "(f, s) \<in> set (sorted_files its) \<longleftrightarrow>
     f \<in> file_item ` set its \<and> s = sum_list (map size_item (filter (\<lambda>it. file_item it = f) its))"
proof -
  have "(f, s) \<in> set (sorted_files its) \<longleftrightarrow> map_of (file_sizes its) f = Some s"
    using distinct_file_sizes [of its] by (simp add: set_sorted_files)
  then show ?thesis
    by (auto simp: map_of_file_sizes)
qed

lemma sorted_files_descending: "sorted_wrt (\<lambda>x y. snd y \<le> snd x) (sorted_files its)"
proof -
  have "sorted (map (\<lambda>x. - snd x) (sorted_files its))"
    unfolding sorted_files_def sorted_desc_def by (rule sorted_sort_key)
  then show ?thesis
    by (simp add: sorted_map sorted_wrt_iff_nth_less)
qed

lemma contrib_row_Inr:
  "contrib_row tot (i, f, s) = Inr row \<Longrightarrow>
   \<exists>txt pct nm c. row = ContribRow i txt pct nm c \<and> percentage s tot = Inr pct"
  by (auto simp: contrib_row_def Let_def bind_Inr_iff)

lemma print_top_contributors_rows:
  assumes "print_top_contributors p section limit = Inr out"
    and "get_top_contributors p section limit \<noteq> []"
  shows "\<exists>rows. out = ContribTitle limit section # rows \<and>
     length rows = length (get_top_contributors p section limit) \<and>
     (\<forall>i<length (get_top_contributors p section limit).
        \<exists>txt pct nm c. rows ! i = ContribRow (Suc i) txt pct nm c \<and>
          percentage (snd (get_top_contributors p section limit ! i))
            (sum_list (map snd (get_top_contributors p section limit))) = Inr pct)"
proof -
  define R where "R = get_top_contributors p section limit"
  define tot where "tot = sum_list (map snd R)"
  from assms obtain rows where
    ok: "all_ok (map (contrib_row tot) (zip [1 ..< Suc (length R)] R)) = Inr rows"
    and out: "out = ContribTitle limit section # rows"
    by (auto simp: print_top_contributors_def Let_def bind_Inr_iff R_def tot_def)
  from ok have m: "map (contrib_row tot) (zip [1 ..< Suc (length R)] R) = map Inr rows"
    by (simp only: all_ok_Inr_iff)
  from arg_cong [OF m, of length] have len: "length rows = length R"
    by (simp del: upt_Suc)
  have row: "\<exists>txt pct nm c. rows ! i = ContribRow (Suc i) txt pct nm c \<and>
          percentage (snd (R ! i)) tot = Inr pct" if i: "i < length R" for i
  proof -
    have "map (contrib_row tot) (zip [1 ..< Suc (length R)] R) ! i = map Inr rows ! i"
      by (simp only: m)
    then have "contrib_row tot (Suc i, R ! i) = Inr (rows ! i)"
      using i len by (simp del: upt_Suc)
    then have "contrib_row tot (Suc i, fst (R ! i), snd (R ! i)) = Inr (rows ! i)"
      by simp
    from contrib_row_Inr [OF this] show ?thesis .
  qed
  from out len row show ?thesis
    unfolding R_def [symmetric] tot_def [symmetric] by blast
qed

text \<open>
  Claim C4, amended. For a section with entries the top-contributors operation groups the
  section's entries by attributed file: every file of an entry has exactly one group, and
  the size of a group is the sum of the sizes of the entries of its file. The groups are
  sorted descending by size. For a limit \<open>N \<ge> 0\<close> the result is the first \<open>N\<close> of them
  (all of them when there are fewer), so at most \<open>N\<close>; for a limit \<open>N < 0\<close> the result is
  the sorted groups without the last \<open>- N\<close> of them, as the slice \<^verbatim>\<open>sorted_files[:limit]\<close>
  gives. In the report the percentage of the group at each rank is
  \<^verbatim>\<open>size / total * 100\<close> with \<^verbatim>\<open>total\<close> the sum of the sizes of the returned groups.
\<close>

theorem C4_top_contributors:
  assumes "map_of (sections p) section = Some its"
  shows "distinct (map fst (sorted_files its)) \<and>
     fst ` set (sorted_files its) = file_item ` set its \<and>
     (\<forall>f s. (f, s) \<in> set (sorted_files its) \<longrightarrow>
        s = sum_list (map size_item (filter (\<lambda>it. file_item it = f) its))) \<and>
     sorted_wrt (\<lambda>x y. snd y \<le> snd x) (sorted_files its) \<and>
     (0 \<le> limit \<longrightarrow>
        get_top_contributors p section limit = take (nat limit) (sorted_files its) \<and>
        int (length (get_top_contributors p section limit)) \<le> limit) \<and>
     (limit < 0 \<longrightarrow>
        get_top_contributors p section limit
          = rev (drop (nat (- limit)) (rev (sorted_files its)))) \<and>
     (\<forall>out. print_top_contributors p section limit = Inr out \<longrightarrow>
        get_top_contributors p section limit \<noteq> [] \<longrightarrow>
        (\<exists>rows. out = ContribTitle limit section # rows \<and>
           length rows = length (get_top_contributors p section limit) \<and>
           (\<forall>i<length (get_top_contributors p section limit).
              \<exists>txt pct nm c. rows ! i = ContribRow (Suc i) txt pct nm c \<and>
                percentage (snd (get_top_contributors p section limit ! i))
                  (sum_list (map snd (get_top_contributors p section limit))) = Inr pct)))"
proof -
  have 1: "distinct (map fst (sorted_files its))"
    by (rule distinct_sorted_files)
  have 2: "fst ` set (sorted_files its) = file_item ` set its"
  proof (intro set_eqI iffI)
    fix f
    assume "f \<in> fst ` set (sorted_files its)"
    then obtain s where "(f, s) \<in> set (sorted_files its)" by auto
    then show "f \<in> file_item ` set its" by (simp add: sorted_files_mem)
  next
    fix f
    assume "f \<in> file_item ` set its"
    then have "(f, sum_list (map size_item (filter (\<lambda>it. file_item it = f) its)))
        \<in> set (sorted_files its)"
      by (simp add: sorted_files_mem)
    then show "f \<in> fst ` set (sorted_files its)" by (rule image_eqI [rotated]) simp
  qed
  have 3: "\<forall>f s. (f, s) \<in> set (sorted_files its) \<longrightarrow>
        s = sum_list (map size_item (filter (\<lambda>it. file_item it = f) its))"
    by (simp add: sorted_files_mem)
  have 4: "sorted_wrt (\<lambda>x y. snd y \<le> snd x) (sorted_files its)"
    by (rule sorted_files_descending)
  have 5: "0 \<le> limit \<longrightarrow>
        get_top_contributors p section limit = take (nat limit) (sorted_files its) \<and>
        int (length (get_top_contributors p section limit)) \<le> limit"
    using assms by (auto simp: get_top_contributors_def slice_to_def)
  have 7: "limit < 0 \<longrightarrow>
        get_top_contributors p section limit
          = rev (drop (nat (- limit)) (rev (sorted_files its)))"
  proof
    assume neg: "limit < 0"
    have "nat (int (length (sorted_files its)) + limit)
        = length (sorted_files its) - nat (- limit)"
      using neg by simp
    then show "get_top_contributors p section limit
          = rev (drop (nat (- limit)) (rev (sorted_files its)))"
      using assms neg by (simp add: get_top_contributors_def slice_to_def drop_rev)
  qed
  have 6: "\<forall>out. print_top_contributors p section limit = Inr out \<longrightarrow>
        get_top_contributors p section limit \<noteq> [] \<longrightarrow>
        (\<exists>rows. out = ContribTitle limit section # rows \<and>
           length rows = length (get_top_contributors p section limit) \<and>
           (\<forall>i<length (get_top_contributors p section limit).
              \<exists>txt pct nm c. rows ! i = ContribRow (Suc i) txt pct nm c \<and>
                percentage (snd (get_top_contributors p section limit ! i))
                  (sum_list (map snd (get_top_contributors p section limit))) = Inr pct))"
    using print_top_contributors_rows by blast
  from 1 2 3 4 5 6 7 show ?thesis by blast
qed

text \<open>
  C4 at a section with four entries of three files, at the limits 2 and \<open>- 2\<close>: the group
  of \<^verbatim>\<open>a.o\<close> sums two entries; at the limit 2 the smallest group is cut off and the
  percentages are taken of \<open>64 + 32\<close>, not of the 112 bytes of all entries; at the limit
  \<open>- 2\<close> the last two groups are cut off.
\<close>

theorem C4_top_contributors_witness:
  "map_of (sections (parse ''.text 0x0 0x100\<newline> .t.a 0x0 0x30 a.o\<newline> .t.b 0x30 0x10 b.o\<newline> .t.c 0x40 0x10 a.o\<newline> .t.d 0x50 0x20 c.o\<newline>'')) ''.text''
     = Some [\<lparr>subsection_item = ''.t.a'', address = 0, size_item = 48, file_item = ''a.o''\<rparr>,
             \<lparr>subsection_item = ''.t.b'', address = 48, size_item = 16, file_item = ''b.o''\<rparr>,
             \<lparr>subsection_item = ''.t.c'', address = 64, size_item = 16, file_item = ''a.o''\<rparr>,
             \<lparr>subsection_item = ''.t.d'', address = 80, size_item = 32, file_item = ''c.o''\<rparr>] \<and>
   get_top_contributors (parse ''.text 0x0 0x100\<newline> .t.a 0x0 0x30 a.o\<newline> .t.b 0x30 0x10 b.o\<newline> .t.c 0x40 0x10 a.o\<newline> .t.d 0x50 0x20 c.o\<newline>'') ''.text'' 2
     = [(''a.o'', 64), (''c.o'', 32)] \<and>
   get_top_contributors (parse ''.text 0x0 0x100\<newline> .t.a 0x0 0x30 a.o\<newline> .t.b 0x30 0x10 b.o\<newline> .t.c 0x40 0x10 a.o\<newline> .t.d 0x50 0x20 c.o\<newline>'') ''.text'' 2
     = take (nat 2) (sorted_files
         [\<lparr>subsection_item = ''.t.a'', address = 0, size_item = 48, file_item = ''a.o''\<rparr>,
          \<lparr>subsection_item = ''.t.b'', address = 48, size_item = 16, file_item = ''b.o''\<rparr>,
          \<lparr>subsection_item = ''.t.c'', address = 64, size_item = 16, file_item = ''a.o''\<rparr>,
          \<lparr>subsection_item = ''.t.d'', address = 80, size_item = 32, file_item = ''c.o''\<rparr>]) \<and>
   get_top_contributors (parse ''.text 0x0 0x100\<newline> .t.a 0x0 0x30 a.o\<newline> .t.b 0x30 0x10 b.o\<newline> .t.c 0x40 0x10 a.o\<newline> .t.d 0x50 0x20 c.o\<newline>'') ''.text'' (- 2)
     = [(''a.o'', 64)] \<and>
   get_top_contributors (parse ''.text 0x0 0x100\<newline> .t.a 0x0 0x30 a.o\<newline> .t.b 0x30 0x10 b.o\<newline> .t.c 0x40 0x10 a.o\<newline> .t.d 0x50 0x20 c.o\<newline>'') ''.text'' (- 2)
     = rev (drop (nat 2) (rev (sorted_files
         [\<lparr>subsection_item = ''.t.a'', address = 0, size_item = 48, file_item = ''a.o''\<rparr>,
          \<lparr>subsection_item = ''.t.b'', address = 48, size_item = 16, file_item = ''b.o''\<rparr>,
          \<lparr>subsection_item = ''.t.c'', address = 64, size_item = 16, file_item = ''a.o''\<rparr>,
          \<lparr>subsection_item = ''.t.d'', address = 80, size_item = 32, file_item = ''c.o''\<rparr>]))) \<and>
   percentage 64 (64 + 32) = Inr (Finite (2345624805922133 / 35184372088832))"
proof -
  have s: "map_of (sections (parse ''.text 0x0 0x100\<newline> .t.a 0x0 0x30 a.o\<newline> .t.b 0x30 0x10 b.o\<newline> .t.c 0x40 0x10 a.o\<newline> .t.d 0x50 0x20 c.o\<newline>'')) ''.text''
     = Some [\<lparr>subsection_item = ''.t.a'', address = 0, size_item = 48, file_item = ''a.o''\<rparr>,
             \<lparr>subsection_item = ''.t.b'', address = 48, size_item = 16, file_item = ''b.o''\<rparr>,
             \<lparr>subsection_item = ''.t.c'', address = 64, size_item = 16, file_item = ''a.o''\<rparr>,
             \<lparr>subsection_item = ''.t.d'', address = 80, size_item = 32, file_item = ''c.o''\<rparr>]"
    by code_simp
  have g: "get_top_contributors (parse ''.text 0x0 0x100\<newline> .t.a 0x0 0x30 a.o\<newline> .t.b 0x30 0x10 b.o\<newline> .t.c 0x40 0x10 a.o\<newline> .t.d 0x50 0x20 c.o\<newline>'') ''.text'' 2
     = [(''a.o'', 64), (''c.o'', 32)]"
    by code_simp
  have g': "get_top_contributors (parse ''.text 0x0 0x100\<newline> .t.a 0x0 0x30 a.o\<newline> .t.b 0x30 0x10 b.o\<newline> .t.c 0x40 0x10 a.o\<newline> .t.d 0x50 0x20 c.o\<newline>'') ''.text'' (- 2)
     = [(''a.o'', 64)]"
    by code_simp
  have pc: "percentage 64 (64 + 32) = Inr (Finite (2345624805922133 / 35184372088832))"
    by code_simp
  have t: "get_top_contributors (parse ''.text 0x0 0x100\<newline> .t.a 0x0 0x30 a.o\<newline> .t.b 0x30 0x10 b.o\<newline> .t.c 0x40 0x10 a.o\<newline> .t.d 0x50 0x20 c.o\<newline>'') ''.text'' 2
     = take (nat 2) (sorted_files
         [\<lparr>subsection_item = ''.t.a'', address = 0, size_item = 48, file_item = ''a.o''\<rparr>,
          \<lparr>subsection_item = ''.t.b'', address = 48, size_item = 16, file_item = ''b.o''\<rparr>,
          \<lparr>subsection_item = ''.t.c'', address = 64, size_item = 16, file_item = ''a.o''\<rparr>,
          \<lparr>subsection_item = ''.t.d'', address = 80, size_item = 32, file_item = ''c.o''\<rparr>])"
    using C4_top_contributors [OF s, of 2] by simp
  have d: "get_top_contributors (parse ''.text 0x0 0x100\<newline> .t.a 0x0 0x30 a.o\<newline> .t.b 0x30 0x10 b.o\<newline> .t.c 0x40 0x10 a.o\<newline> .t.d 0x50 0x20 c.o\<newline>'') ''.text'' (- 2)
     = rev (drop (nat 2) (rev (sorted_files
         [\<lparr>subsection_item = ''.t.a'', address = 0, size_item = 48, file_item = ''a.o''\<rparr>,
          \<lparr>subsection_item = ''.t.b'', address = 48, size_item = 16, file_item = ''b.o''\<rparr>,
          \<lparr>subsection_item = ''.t.c'', address = 64, size_item = 16, file_item = ''a.o''\<rparr>,
          \<lparr>subsection_item = ''.t.d'', address = 80, size_item = 32, file_item = ''c.o''\<rparr>])))"
    using C4_top_contributors [OF s, of "- 2"] by simp
  show ?thesis
    by (intro conjI s g t g' d pc)
qed

text \<open>
  Claim C4 as stated fails for a negative limit: at the limit \<open>- 2\<close> the operation returns
  one group, which is more than \<open>- 2\<close> groups and is not a result of taking the first
  \<open>- 2\<close> groups of the three.
\<close>

theorem C4_counterexample:
  "get_top_contributors (parse ''.text 0x0 0x100\<newline> .t.a 0x0 0x30 a.o\<newline> .t.b 0x30 0x10 b.o\<newline> .t.c 0x40 0x10 a.o\<newline> .t.d 0x50 0x20 c.o\<newline>'') ''.text'' (- 2)
     = [(''a.o'', 64)] \<and>
   \<not> int (length (get_top_contributors (parse ''.text 0x0 0x100\<newline> .t.a 0x0 0x30 a.o\<newline> .t.b 0x30 0x10 b.o\<newline> .t.c 0x40 0x10 a.o\<newline> .t.d 0x50 0x20 c.o\<newline>'') ''.text'' (- 2))) \<le> - 2"
  by code_simp

lemma gap_in_walk_marks:
  "Inl (a, b) \<in> set (walk_marks q secs) \<longleftrightarrow>
     (\<exists>i<length secs. a = (q # map end_addr secs) ! i \<and> b = start (secs ! i) \<and> a < b)"
  by (auto simp: walk_marks_def set_zip split: if_splits)

lemma gap_in_walk_marks_first:
  assumes "secs \<noteq> []"
  shows "Inl (a, b) \<in> set (walk_marks (start (hd secs)) secs) \<longleftrightarrow>
     (\<exists>i. Suc i < length secs \<and> a = end_addr (secs ! i) \<and> b = start (secs ! Suc i) \<and> a < b)"
proof
  assume "Inl (a, b) \<in> set (walk_marks (start (hd secs)) secs)"
  then obtain i where i: "i < length secs" "a = (start (hd secs) # map end_addr secs) ! i"
    "b = start (secs ! i)" "a < b"
    unfolding gap_in_walk_marks by blast
  show "\<exists>i. Suc i < length secs \<and> a = end_addr (secs ! i) \<and> b = start (secs ! Suc i) \<and> a < b"
  proof (cases i)
    case 0
    with i assms show ?thesis by (simp add: hd_conv_nth)
  next
    case (Suc j)
    with i show ?thesis by (intro exI [of _ j]) simp
  qed
next
  assume "\<exists>i. Suc i < length secs \<and> a = end_addr (secs ! i) \<and> b = start (secs ! Suc i) \<and> a < b"
  then obtain j where "Suc j < length secs" "a = end_addr (secs ! j)" "b = start (secs ! Suc j)" "a < b"
    by blast
  then show "Inl (a, b) \<in> set (walk_marks (start (hd secs)) secs)"
    unfolding gap_in_walk_marks by (intro exI [of _ "Suc j"]) simp
qed

lemma all_sections_not_Nil: "section_addresses p \<noteq> [] \<Longrightarrow> sort_key start (all_sections p uv) \<noteq> []"
proof -
  assume "section_addresses p \<noteq> []"
  then have "length (sort_key start (all_sections p uv)) \<noteq> 0"
    by (simp add: all_sections_def)
  then show ?thesis by (simp del: length_sort)
qed

text \<open>
  Claim C10. In the walk of the memory map \<open>prev_end\<close> is set to the end of each section,
  not to the largest end seen so far. With the sections sorted by start, the gap records
  of the output are exactly those between a section and the next one that starts after
  the section's end, from that end to that start: a section that starts at or before the
  end of the section before it gets no gap, no gap is empty or negative, and a gap after
  a section inside an earlier, longer one is measured from the inner section's end. The
  total of used bytes is the sum of the sizes of all sections with address info, whether
  they overlap or not. For the sections \<open>[0,1000)\<close>, \<open>[10,20)\<close> and \<open>[500,600)\<close> the output
  has no gap before the second section, a gap from 20 to 500 before the third, and 1110
  bytes used.
\<close>

theorem C10_prev_end_advances_unconditionally:
  "(print_memory_map p use_vma = Inr out \<longrightarrow> section_addresses p \<noteq> [] \<longrightarrow>
      (\<forall>a b. (\<exists>t bar. GapRow a b t bar \<in> set out) \<longleftrightarrow>
         (\<exists>i. Suc i < length (sort_key start (all_sections p use_vma)) \<and>
              a = end_addr (sort_key start (all_sections p use_vma) ! i) \<and>
              b = start (sort_key start (all_sections p use_vma) ! Suc i) \<and> a < b)) \<and>
      (\<exists>ls u g. out = ls @ [TotalUsed u, TotalGaps g] \<and>
         format_size (sum_list (map (\<lambda>(nm, info). size_info info) (section_addresses p))) = Inr u)) \<and>
   print_memory_map (parse ''.a 0x0 0x3e8\<newline>.b 0xa 0xa\<newline>.c 0x1f4 0x64\<newline>'') True
     = Inr [Region 0 600 (B 600),
            SectionRow ''.a'' 0 1000 (B 1000) Green, BarRow (times CHR ''#'' 60),
            SectionRow ''.b'' 10 20 (B 10) Green, BarRow (times CHR ''#'' 1),
            GapRow 20 500 (B 480) (times CHR ''.'' 32),
            SectionRow ''.c'' 500 600 (B 100) Green, BarRow (times CHR ''#'' 10),
            TotalUsed (KB (555 / 512)), TotalGaps (B 480)]"
proof -
  have 1: "(\<forall>a b. (\<exists>t bar. GapRow a b t bar \<in> set out) \<longleftrightarrow>
         (\<exists>i. Suc i < length (sort_key start (all_sections p use_vma)) \<and>
              a = end_addr (sort_key start (all_sections p use_vma) ! i) \<and>
              b = start (sort_key start (all_sections p use_vma) ! Suc i) \<and> a < b)) \<and>
      (\<exists>ls u g. out = ls @ [TotalUsed u, TotalGaps g] \<and>
         format_size (sum_list (map (\<lambda>(nm, info). size_info info) (section_addresses p))) = Inr u)"
    if a: "print_memory_map p use_vma = Inr out" and b: "section_addresses p \<noteq> []"
  proof -
    define secs where "secs = sort_key start (all_sections p use_vma)"
    have ne: "secs \<noteq> []"
      unfolding secs_def using b by (rule all_sections_not_Nil)
    have m: "marks out = walk_marks (start (hd secs)) secs"
      unfolding secs_def by (rule marks_print_memory_map [OF a b])
    have x: "(\<exists>t bar. GapRow a b t bar \<in> set out) \<longleftrightarrow>
         (\<exists>i. Suc i < length secs \<and> a = end_addr (secs ! i) \<and> b = start (secs ! Suc i) \<and> a < b)"
      for a b
      using gap_in_marks [of a b out] gap_in_walk_marks_first [OF ne, of a b]
      by (simp only: m)
    from print_memory_map_Inr [OF a b] obtain span ls u g where
      out: "out = [Region (start (hd secs)) (end_addr (last secs)) span] @ ls
              @ [TotalUsed u, TotalGaps g]"
      and u: "format_size (sum_list (map size_sec secs)) = Inr u"
      unfolding secs_def by blast
    have "sum_list (map size_sec secs)
        = sum_list (map (\<lambda>(nm, info). size_info info) (section_addresses p))"
      unfolding secs_def by (simp only: sum_list_sort_key sum_size_all_sections)
    with u have u': "format_size (sum_list (map (\<lambda>(nm, info). size_info info) (section_addresses p)))
        = Inr u"
      by (simp only:)
    have y: "\<exists>ls u g. out = ls @ [TotalUsed u, TotalGaps g] \<and>
         format_size (sum_list (map (\<lambda>(nm, info). size_info info) (section_addresses p))) = Inr u"
      using u' unfolding out
      by (intro exI [of _ "[Region (start (hd secs)) (end_addr (last secs)) span] @ ls"]
          exI [of _ u] exI [of _ g]) simp
    from x y show ?thesis
      unfolding secs_def by blast
  qed
  have 2: "print_memory_map (parse ''.a 0x0 0x3e8\<newline>.b 0xa 0xa\<newline>.c 0x1f4 0x64\<newline>'') True
     = Inr [Region 0 600 (B 600),
            SectionRow ''.a'' 0 1000 (B 1000) Green, BarRow (times CHR ''#'' 60),
            SectionRow ''.b'' 10 20 (B 10) Green, BarRow (times CHR ''#'' 1),
            GapRow 20 500 (B 480) (times CHR ''.'' 32),
            SectionRow ''.c'' 500 600 (B 100) Green, BarRow (times CHR ''#'' 10),
            TotalUsed (KB (555 / 512)), TotalGaps (B 480)]"
    by code_simp
  from 1 2 show ?thesis by blast
qed

text \<open>
  C10 at the three sections \<open>[0,1000)\<close>, \<open>[10,20)\<close> and \<open>[500,600)\<close>: the sorted sections, and
  the sum of the sizes as it is printed.
\<close>

theorem C10_prev_end_advances_unconditionally_witness:
  "section_addresses (parse ''.a 0x0 0x3e8\<newline>.b 0xa 0xa\<newline>.c 0x1f4 0x64\<newline>'') \<noteq> [] \<and>
   map (\<lambda>s. (start s, end_addr s))
     (sort_key start (all_sections (parse ''.a 0x0 0x3e8\<newline>.b 0xa 0xa\<newline>.c 0x1f4 0x64\<newline>'') True))
     = [(0, 1000), (10, 20), (500, 600)] \<and>
   format_size (sum_list (map (\<lambda>(nm, info). size_info info)
       (section_addresses (parse ''.a 0x0 0x3e8\<newline>.b 0xa 0xa\<newline>.c 0x1f4 0x64\<newline>''))))
     = Inr (KB (555 / 512)) \<and>
   (\<exists>t bar. GapRow 20 500 t bar \<in> set
      [Region 0 600 (B 600),
       SectionRow ''.a'' 0 1000 (B 1000) Green, BarRow (times CHR ''#'' 60),
       SectionRow ''.b'' 10 20 (B 10) Green, BarRow (times CHR ''#'' 1),
       GapRow 20 500 (B 480) (times CHR ''.'' 32),
       SectionRow ''.c'' 500 600 (B 100) Green, BarRow (times CHR ''#'' 10),
       TotalUsed (KB (555 / 512)), TotalGaps (B 480)])"
proof -
  have s: "section_addresses (parse ''.a 0x0 0x3e8\<newline>.b 0xa 0xa\<newline>.c 0x1f4 0x64\<newline>'') \<noteq> []"
    by code_simp
  have m: "map (\<lambda>s. (start s, end_addr s))
     (sort_key start (all_sections (parse ''.a 0x0 0x3e8\<newline>.b 0xa 0xa\<newline>.c 0x1f4 0x64\<newline>'') True))
     = [(0, 1000), (10, 20), (500, 600)]"
    by code_simp
  have f: "format_size (sum_list (map (\<lambda>(nm, info). size_info info)
       (section_addresses (parse ''.a 0x0 0x3e8\<newline>.b 0xa 0xa\<newline>.c 0x1f4 0x64\<newline>''))))
     = Inr (KB (555 / 512))"
    by code_simp
  from C10_prev_end_advances_unconditionally
    [of "parse ''.a 0x0 0x3e8\<newline>.b 0xa 0xa\<newline>.c 0x1f4 0x64\<newline>''" True
      "[Region 0 600 (B 600),
       SectionRow ''.a'' 0 1000 (B 1000) Green, BarRow (times CHR ''#'' 60),
       SectionRow ''.b'' 10 20 (B 10) Green, BarRow (times CHR ''#'' 1),
       GapRow 20 500 (B 480) (times CHR ''.'' 32),
       SectionRow ''.c'' 500 600 (B 100) Green, BarRow (times CHR ''#'' 10),
       TotalUsed (KB (555 / 512)), TotalGaps (B 480)]"] s m f
  show ?thesis by simp
qed

end
